theory Spec2Isabelle
  imports Main
begin

section \<open>Strings and regular expressions of the host language\<close>

text \<open>
  A text is the list of its code units, which the characters of \<open>string\<close> stand for.
  \<open>substring\<close> is
  \<^verbatim>\<open>String.prototype.substring\<close> on offsets that are array indices (never negative):
  both offsets are clamped to the length and swapped when the first is the larger one.
  \<open>slice\<close> is \<^verbatim>\<open>String.prototype.slice\<close> on such offsets: clamped, never swapped.
\<close>

definition substring :: "string \<Rightarrow> nat \<Rightarrow> nat \<Rightarrow> string" where
  "substring s a b =
     (let from = min (min a (length s)) (min b (length s));
          to = max (min a (length s)) (min b (length s))
      in take (to - from) (drop from s))"

definition substring_from :: "string \<Rightarrow> nat \<Rightarrow> string" where
  "substring_from s a = substring s a (length s)"

definition slice :: "string \<Rightarrow> nat \<Rightarrow> nat \<Rightarrow> string" where
  "slice s a b =
     (let from = min a (length s); to = min b (length s)
      in take (to - from) (drop from s))"

definition slice_from :: "string \<Rightarrow> nat \<Rightarrow> string" where
  "slice_from s a = slice s a (length s)"

text \<open>
  A greedy quantifier takes the longest run first and gives characters back one at a time
  until the rest of the pattern matches: \<open>give_back rest s k\<close> is the largest \<open>j\<close> with
  \<open>1 \<le> j \<le> k\<close> such that \<open>rest\<close> accepts \<open>s\<close> from offset \<open>j\<close>.
\<close>

fun give_back :: "(string \<Rightarrow> bool) \<Rightarrow> string \<Rightarrow> nat \<Rightarrow> nat option" where
  "give_back rest s 0 = None"
| "give_back rest s (Suc k) =
     (if rest (drop (Suc k) s) then Some (Suc k) else give_back rest s k)"

text \<open>
  \<open>regexp_exec m text lastIndex\<close> is \<^verbatim>\<open>regex.exec(text)\<close> of a global regular expression
  whose anchored matcher is \<open>m\<close>: the matcher is tried at \<open>lastIndex\<close>, \<open>lastIndex + 1\<close>, ...
  up to the end of the text. \<open>m\<close> returns the first capture group and the length of the
  whole match; the result adds the index of the match. \<open>None\<close> is \<^verbatim>\<open>null\<close>.
\<close>

function regexp_exec ::
  "(string \<Rightarrow> (string \<times> nat) option) \<Rightarrow> string \<Rightarrow> nat \<Rightarrow> (nat \<times> string \<times> nat) option" where
  "regexp_exec m text i =
     (if length text < i then None
      else case m (drop i text) of
             Some (g, n) \<Rightarrow> Some (i, g, n)
           | None \<Rightarrow> regexp_exec m text (Suc i))"
  by pat_completeness auto

termination
  by (relation "measure (\<lambda>(m, text, i). Suc (length text) - i)") auto

declare regexp_exec.simps [simp del]

section \<open>The bracket placeholder parser (popup/index.tsx)\<close>

record ParsedVar =
  pv_name :: string
  pv_start :: nat
  pv_end :: nat

text \<open>
  The pattern \<^verbatim>\<open>/\[([^\]]+)\]/g\<close> anchored at the head of \<open>s\<close>: an opening bracket, a greedy
  run of one or more characters other than the closing bracket (the capture group), and a
  closing bracket.
\<close>

definition bracket_match :: "string \<Rightarrow> (string \<times> nat) option" where
  "bracket_match s =
     (case s of
        [] \<Rightarrow> None
      | c # r \<Rightarrow>
          if c \<noteq> CHR ''['' then None
          else (case give_back (\<lambda>u. case u of [] \<Rightarrow> False | d # _ \<Rightarrow> d = CHR '']'') r
                       (length (takeWhile (\<lambda>d. d \<noteq> CHR '']'') r)) of
                  None \<Rightarrow> None
                | Some j \<Rightarrow> Some (take j r, j + 2)))"

lemma bracket_match_length:
  "bracket_match s = Some (g, n) \<Longrightarrow> 0 < n"
  by (auto simp: bracket_match_def split: list.splits if_splits option.splits)

lemma regexp_exec_index:
  "regexp_exec m t i = Some (idx, g, n) \<Longrightarrow> i \<le> idx \<and> idx \<le> length t \<and> m (drop idx t) = Some (g, n)"
proof (induction m t i rule: regexp_exec.induct)
  case (1 m t i)
  show ?case
  proof (cases "m (drop i t)")
    case None
    with "1.prems" have "regexp_exec m t (Suc i) = Some (idx, g, n)" and "\<not> length t < i"
      by (auto simp: regexp_exec.simps [of m t i] split: if_splits)
    with "1.IH" None show ?thesis by fastforce
  next
    case (Some r)
    with "1.prems" show ?thesis
      by (auto simp: regexp_exec.simps [of m t i] split: if_splits prod.splits)
  qed
qed

text \<open>
  The loop \<^verbatim>\<open>while ((match = regex.exec(text)) !== null)\<close>: the regular expression object
  keeps \<open>lastIndex\<close>, which \<open>exec\<close> sets to the end of each match; an occurrence is pushed
  when the capture group is truthy (a non-empty string).
\<close>

function parse_loop :: "string \<Rightarrow> nat \<Rightarrow> ParsedVar list \<Rightarrow> ParsedVar list" where
  "parse_loop text lastIndex variables =
     (case regexp_exec bracket_match text lastIndex of
        None \<Rightarrow> variables
      | Some (index, g, n) \<Rightarrow>
          parse_loop text (index + n)
            (if g \<noteq> [] then
               variables @ [\<lparr>pv_name = g, pv_start = index, pv_end = index + n\<rparr>]
             else variables))"
  by pat_completeness auto

termination
  apply (relation "measure (\<lambda>(text, lastIndex, variables). Suc (length text) - lastIndex)")
   apply simp
  apply (auto dest!: regexp_exec_index dest: bracket_match_length)
  done

definition parseVariablesFromText :: "string \<Rightarrow> ParsedVar list" where
  "parseVariablesFromText text = parse_loop text 0 []"

text \<open>
  The reference reading of the bracket syntax, after the description of the parser: the text
  is scanned left to right; at an opening bracket the name is everything up to the nearest
  following closing bracket; a placeholder is well formed when that bracket exists and the
  name is not empty, and scanning goes on after it; at any other position the scan moves
  one character on. \<open>off\<close> is the offset of the scanned suffix in the whole text.
\<close>

fun scan_placeholders :: "nat \<Rightarrow> string \<Rightarrow> ParsedVar list" where
  "scan_placeholders off [] = []"
| "scan_placeholders off (c # cs) =
     (if c = CHR ''['' \<and> takeWhile (\<lambda>d. d \<noteq> CHR '']'') cs \<noteq> []
         \<and> length (takeWhile (\<lambda>d. d \<noteq> CHR '']'') cs) < length cs
      then \<lparr>pv_name = takeWhile (\<lambda>d. d \<noteq> CHR '']'') cs, pv_start = off,
             pv_end = off + length (takeWhile (\<lambda>d. d \<noteq> CHR '']'') cs) + 2\<rparr>
           # scan_placeholders (off + length (takeWhile (\<lambda>d. d \<noteq> CHR '']'') cs) + 2)
               (drop (Suc (length (takeWhile (\<lambda>d. d \<noteq> CHR '']'') cs))) cs)
      else scan_placeholders (Suc off) cs)"

definition wellformed_placeholders :: "string \<Rightarrow> ParsedVar list" where
  "wellformed_placeholders t = scan_placeholders 0 t"

section \<open>Rendering a text with clickable placeholders (InteractiveText, popup/index.tsx)\<close>

text \<open>
  The component returns a sequence of elements: plain spans of text and clickable boxes.
  A box shows the name between brackets and carries the arguments its click handler passes
  on: the name and both offsets of the occurrence. \<open>render_variable\<close> is the body of the
  \<^verbatim>\<open>forEach\<close> callback, on the pair of \<open>elements\<close> and \<open>lastIndex\<close> it updates.
\<close>

datatype element = TextSpan string | VariableBox string nat nat

fun element_text :: "element \<Rightarrow> string" where
  "element_text (TextSpan s) = s"
| "element_text (VariableBox name a b) = CHR ''['' # name @ [CHR '']'']"

definition render_variable :: "string \<Rightarrow> ParsedVar \<Rightarrow> element list \<times> nat \<Rightarrow> element list \<times> nat" where
  "render_variable text variable st =
     (case st of (elements, lastIndex) \<Rightarrow>
        ((if lastIndex < pv_start variable
          then elements @ [TextSpan (substring text lastIndex (pv_start variable))]
          else elements)
         @ [VariableBox (pv_name variable) (pv_start variable) (pv_end variable)],
         pv_end variable))"

definition InteractiveText :: "string \<Rightarrow> element list" where
  "InteractiveText text =
     (let variables = parseVariablesFromText text in
      if length variables = 0 then [TextSpan text]
      else (case fold (render_variable text) variables ([], 0) of
              (elements, lastIndex) \<Rightarrow>
                if lastIndex < length text
                then elements @ [TextSpan (substring_from text lastIndex)]
                else elements))"

section \<open>The local store (the storage module, in utils/errorHandler.ts)\<close>

text \<open>
  The stored records. The fields keep the names of the interfaces, behind a prefix of the
  record (\<open>uv\<close>, \<open>rp\<close>, \<open>nv\<close>, \<open>np\<close>), since the interfaces share field names.
\<close>

record UserVariable =
  uv_id :: string
  uv_name :: string
  uv_value :: string
  uv_description :: "string option"
  uv_category :: "string option"
  uv_timestamp :: int

record RecentPrompt =
  rp_id :: string
  rp_original :: string
  rp_optimized :: string
  rp_timestamp :: int

text \<open>The arguments of the two creating operations: the records without id and timestamp.\<close>

record NewVariable =
  nv_name :: string
  nv_value :: string
  nv_description :: "string option"
  nv_category :: "string option"

record NewPrompt =
  np_original :: string
  np_optimized :: string

text \<open>
  The persisted state: what \<^verbatim>\<open>browser.storage.local\<close> holds under the keys
  \<^verbatim>\<open>user_variables\<close> and \<^verbatim>\<open>recent_prompts\<close>; \<open>None\<close> is an absent key. An object
  read from the storage has the same shape, and \<open>empty_items\<close> is the object \<^verbatim>\<open>{}\<close>.
\<close>

record storage =
  user_variables :: "UserVariable list option"
  recent_prompts :: "RecentPrompt list option"

definition empty_items :: storage where
  "empty_items = \<lparr>user_variables = None, recent_prompts = None\<rparr>"

text \<open>
  How the host browser behaves during one store operation: whether
  \<^verbatim>\<open>browser.storage.local\<close> exists, and whether its \<^verbatim>\<open>get\<close> and its \<^verbatim>\<open>set\<close> reject.
  A rejected \<^verbatim>\<open>set\<close> writes nothing: the collection lives under one key, and the storage
  API writes a key or leaves it.
\<close>

record host =
  available :: bool
  get_rejects :: bool
  set_rejects :: bool

datatype error = StorageError

definition browser_get :: "host \<Rightarrow> storage \<Rightarrow> error + storage" where
  "browser_get h s = (if get_rejects h then Inl StorageError else Inr s)"

definition browser_set :: "host \<Rightarrow> (storage \<Rightarrow> storage) \<Rightarrow> storage \<Rightarrow> (error + unit) \<times> storage" where
  "browser_set h items s = (if set_rejects h then (Inl StorageError, s) else (Inr (), items s))"

text \<open>
  \<^verbatim>\<open>safeBrowser.storage.local\<close>: \<open>get\<close> answers \<^verbatim>\<open>{}\<close> when the API is missing and when
  the read throws (the catch block returns \<^verbatim>\<open>{}\<close>); \<open>set\<close> returns without writing when
  the API is missing and throws again what the write threw.
\<close>

definition local_get :: "host \<Rightarrow> storage \<Rightarrow> error + storage" where
  "local_get h s =
     (if \<not> available h then Inr empty_items
      else case browser_get h s of
             Inl e \<Rightarrow> Inr empty_items
           | Inr r \<Rightarrow> Inr r)"

definition local_set :: "host \<Rightarrow> (storage \<Rightarrow> storage) \<Rightarrow> storage \<Rightarrow> (error + unit) \<times> storage" where
  "local_set h items s =
     (if \<not> available h then (Inr (), s)
      else case browser_set h items s of
             (Inl e, s') \<Rightarrow> (Inl e, s')
           | (Inr u, s') \<Rightarrow> (Inr u, s'))"

text \<open>\<^verbatim>\<open>stored[key] || []\<close>: an absent key reads as the empty list.\<close>

definition or_empty :: "'a list option \<Rightarrow> 'a list" where
  "or_empty r = (case r of None \<Rightarrow> [] | Some xs \<Rightarrow> xs)"

text \<open>\<^verbatim>\<open>Array.prototype.findIndex\<close>: \<open>None\<close> is the result \<^verbatim>\<open>-1\<close>.\<close>

fun findIndex :: "('a \<Rightarrow> bool) \<Rightarrow> 'a list \<Rightarrow> nat option" where
  "findIndex p [] = None"
| "findIndex p (x # xs) = (if p x then Some 0 else map_option Suc (findIndex p xs))"

subsection \<open>Recent prompts\<close>

definition getRecentPrompts :: "host \<Rightarrow> storage \<Rightarrow> error + RecentPrompt list" where
  "getRecentPrompts h s =
     (case local_get h s of
        Inl e \<Rightarrow> Inl e
      | Inr result \<Rightarrow> Inr (or_empty (recent_prompts result)))"

text \<open>
  \<open>uuid\<close> and \<open>now\<close> are what \<^verbatim>\<open>crypto.randomUUID()\<close> and \<^verbatim>\<open>Date.now()\<close> return in the
  call; \<open>newPrompt\<close> and \<open>newVariable\<close> are the object literals of the same names.
\<close>

definition newPrompt :: "string \<Rightarrow> int \<Rightarrow> NewPrompt \<Rightarrow> RecentPrompt" where
  "newPrompt uuid now prompt =
     \<lparr>rp_id = uuid, rp_original = np_original prompt, rp_optimized = np_optimized prompt,
      rp_timestamp = now\<rparr>"

definition addRecentPrompt ::
  "host \<Rightarrow> string \<Rightarrow> int \<Rightarrow> NewPrompt \<Rightarrow> storage \<Rightarrow> (error + unit) \<times> storage" where
  "addRecentPrompt h uuid now prompt s =
     (case getRecentPrompts h s of
        Inl e \<Rightarrow> (Inl e, s)
      | Inr recent \<Rightarrow>
          (let updated = take 20 (newPrompt uuid now prompt # recent)
           in local_set h (\<lambda>st. st\<lparr>recent_prompts := Some updated\<rparr>) s))"

subsection \<open>User variables\<close>

definition getUserVariables :: "host \<Rightarrow> storage \<Rightarrow> error + UserVariable list" where
  "getUserVariables h s =
     (case local_get h s of
        Inl e \<Rightarrow> Inr []
      | Inr stored \<Rightarrow> Inr (or_empty (user_variables stored)))"

definition newVariable :: "string \<Rightarrow> int \<Rightarrow> NewVariable \<Rightarrow> UserVariable" where
  "newVariable uuid now variable =
     \<lparr>uv_id = uuid, uv_name = nv_name variable, uv_value = nv_value variable,
      uv_description = nv_description variable, uv_category = nv_category variable,
      uv_timestamp = now\<rparr>"

definition addUserVariable ::
  "host \<Rightarrow> string \<Rightarrow> int \<Rightarrow> NewVariable \<Rightarrow> storage \<Rightarrow> (error + UserVariable) \<times> storage" where
  "addUserVariable h uuid now variable s =
     (case getUserVariables h s of
        Inl e \<Rightarrow> (Inl e, s)
      | Inr variables \<Rightarrow>
          (let variables' =
                 (case findIndex (\<lambda>v. uv_name v = nv_name variable) variables of
                    Some existingIndex \<Rightarrow> variables[existingIndex := newVariable uuid now variable]
                  | None \<Rightarrow> variables @ [newVariable uuid now variable])
           in case local_set h (\<lambda>st. st\<lparr>user_variables := Some variables'\<rparr>) s of
                (Inl e, s') \<Rightarrow> (Inl e, s')
              | (Inr u, s') \<Rightarrow> (Inr (newVariable uuid now variable), s')))"

definition updateUserVariable ::
  "host \<Rightarrow> int \<Rightarrow> UserVariable \<Rightarrow> storage \<Rightarrow> (error + UserVariable) \<times> storage" where
  "updateUserVariable h now variable s =
     (case getUserVariables h s of
        Inl e \<Rightarrow> (Inl e, s)
      | Inr variables \<Rightarrow>
          (case findIndex (\<lambda>v. uv_id v = uv_id variable) variables of
             Some index \<Rightarrow>
               (let updatedVariable = variable\<lparr>uv_timestamp := now\<rparr> in
                case local_set h (\<lambda>st. st\<lparr>user_variables := Some (variables[index := updatedVariable])\<rparr>) s of
                  (Inl e, s') \<Rightarrow> (Inl e, s')
                | (Inr u, s') \<Rightarrow> (Inr updatedVariable, s'))
           | None \<Rightarrow> (Inr variable, s)))"

definition removeUserVariable :: "host \<Rightarrow> string \<Rightarrow> storage \<Rightarrow> (error + unit) \<times> storage" where
  "removeUserVariable h ident s =
     (case getUserVariables h s of
        Inl e \<Rightarrow> (Inl e, s)
      | Inr variables \<Rightarrow>
          local_set h (\<lambda>st. st\<lparr>user_variables := Some (filter (\<lambda>v. uv_id v \<noteq> ident) variables)\<rparr>) s)"

text \<open>A host whose storage API exists and neither rejects a read nor a write.\<close>

definition working :: "host \<Rightarrow> bool" where
  "working h = (available h \<and> \<not> get_rejects h \<and> \<not> set_rejects h)"

definition working_host :: host where
  "working_host = \<lparr>available = True, get_rejects = False, set_rejects = False\<rparr>"

subsection \<open>Sequences of store operations\<close>

text \<open>
  One call of the variable store, with the behaviour of the host during the call and the
  values generated in it; a sequence of calls issued one after the other acts on the
  persisted state (a rejected call leaves what its write left).
\<close>

datatype store_op =
    Add host string int NewVariable
  | Update host int UserVariable
  | Remove host string

fun apply_op :: "store_op \<Rightarrow> storage \<Rightarrow> storage" where
  "apply_op (Add h uuid now variable) s = snd (addUserVariable h uuid now variable s)"
| "apply_op (Update h now variable) s = snd (updateUserVariable h now variable s)"
| "apply_op (Remove h ident) s = snd (removeUserVariable h ident s)"

definition run_ops :: "store_op list \<Rightarrow> storage \<Rightarrow> storage" where
  "run_ops ops s = fold apply_op ops s"

definition names_unique :: "storage \<Rightarrow> bool" where
  "names_unique s = distinct (map uv_name (or_empty (user_variables s)))"

definition renames :: "store_op \<Rightarrow> storage \<Rightarrow> bool" where
  "renames c s =
     (case c of
        Update h now variable \<Rightarrow>
          \<exists>v \<in> set (or_empty (user_variables s)). uv_id v = uv_id variable \<and> uv_name v \<noteq> uv_name variable
      | _ \<Rightarrow> False)"

text \<open>A caller that awaits one addition after the other; a rejected one ends the sequence.\<close>

fun addRecentPrompts :: "host \<Rightarrow> (string \<times> int \<times> NewPrompt) list \<Rightarrow> storage \<Rightarrow> (error + unit) \<times> storage" where
  "addRecentPrompts h [] s = (Inr (), s)"
| "addRecentPrompts h ((uuid, now, prompt) # rest) s =
     (case addRecentPrompt h uuid now prompt s of
        (Inl e, s') \<Rightarrow> (Inl e, s')
      | (Inr u, s') \<Rightarrow> addRecentPrompts h rest s')"

definition entry :: "string \<times> int \<times> NewPrompt \<Rightarrow> RecentPrompt" where
  "entry a = (case a of (uuid, now, prompt) \<Rightarrow> newPrompt uuid now prompt)"

section \<open>Replacing one placeholder occurrence (popup/index.tsx)\<close>

text \<open>
  The state of the popup that the replacement handlers read and set. Of the optimization
  result only the two prompt texts are modelled; the handlers copy its other fields.
\<close>

record OptimizationResult =
  original :: string
  optimized :: string

record ReplaceDialog =
  dialog_open :: bool
  variableName :: string
  currentValue :: string
  position_start :: nat
  position_end :: nat
  useExisting :: bool
  selectedVariable :: "UserVariable option"

record popup =
  optimizationResult :: "OptimizationResult option"
  userVariables :: "UserVariable list"
  variableReplaceDialog :: ReplaceDialog

definition closed_dialog :: ReplaceDialog where
  "closed_dialog =
     \<lparr>dialog_open = False, variableName = [], currentValue = [], position_start = 0,
      position_end = 0, useExisting = False, selectedVariable = None\<rparr>"

definition handleVariableClick :: "string \<Rightarrow> nat \<Rightarrow> nat \<Rightarrow> popup \<Rightarrow> popup" where
  "handleVariableClick name start stop st =
     st\<lparr>variableReplaceDialog :=
          \<lparr>dialog_open = True, variableName = name,
           currentValue = (case find (\<lambda>v. uv_name v = name) (userVariables st) of
                             Some existingVariable \<Rightarrow> uv_value existingVariable
                           | None \<Rightarrow> []),
           position_start = start, position_end = stop,
           useExisting = False, selectedVariable = None\<rparr>\<rparr>"

text \<open>
  \<open>handleReplaceVariable\<close> with the flag and the variable its caller passes. \<open>h_add\<close> and
  \<open>h_get\<close> are the host during the call of addUserVariable and during the refreshing
  getUserVariables. When addUserVariable rejects, the handler rejects and sets no state.
  \<open>description_for\<close> is the template literal of the description.
\<close>

definition description_for :: "string \<Rightarrow> string" where
  "description_for name = ''Variable for '' @ name"

definition handleReplaceVariable ::
  "host \<Rightarrow> host \<Rightarrow> string \<Rightarrow> int \<Rightarrow> bool \<Rightarrow> UserVariable option \<Rightarrow> popup \<Rightarrow> storage
     \<Rightarrow> (error + popup) \<times> storage" where
  "handleReplaceVariable h_add h_get uuid now use_existing selected st s =
     (case optimizationResult st of
        None \<Rightarrow> (Inr st, s)
      | Some result \<Rightarrow>
          (let dialog = variableReplaceDialog st in
           case (if use_existing \<and> selected \<noteq> None then (Inr (uv_value (the selected), st), s)
                 else (case addUserVariable h_add uuid now
                              \<lparr>nv_name = variableName dialog, nv_value = currentValue dialog,
                               nv_description = Some (description_for (variableName dialog)),
                               nv_category = Some ''general''\<rparr> s of
                         (Inl e, s') \<Rightarrow> (Inl e, s')
                       | (Inr created, s') \<Rightarrow>
                           (case getUserVariables h_get s' of
                              Inl e \<Rightarrow> (Inl e, s')
                            | Inr variables \<Rightarrow>
                                (Inr (uv_value created, st\<lparr>userVariables := variables\<rparr>), s')))) of
             (Inl e, s') \<Rightarrow> (Inl e, s')
           | (Inr (replacementValue, st1), s') \<Rightarrow>
               (let originalText = optimized result;
                    beforeVariable = substring originalText 0 (position_start dialog);
                    afterVariable = substring_from originalText (position_end dialog);
                    updatedText = beforeVariable @ replacementValue @ afterVariable
                in (Inr (st1\<lparr>optimizationResult := Some (result\<lparr>optimized := updatedText\<rparr>),
                            variableReplaceDialog := closed_dialog\<rparr>), s'))))"

section \<open>Mustache placeholders and the preview (components/PromptWithVariables.tsx)\<close>

text \<open>
  The backend variable as the component reads it: the name and the optional default value.
\<close>

record Variable =
  v_name :: string
  v_default_value :: "string option"

record ParsedVariable =
  pvar_name :: string
  startIndex :: nat
  endIndex :: nat
  isValid :: bool
  pvar_variable :: "Variable option"

text \<open>
  \<^verbatim>\<open>String.prototype.trim\<close>: white space and line terminators are removed at both ends
  (of the code units below 256: tab, line feed, vertical tab, form feed, carriage return,
  space and no-break space).
\<close>

definition is_white_space :: "char \<Rightarrow> bool" where
  "is_white_space c \<longleftrightarrow>
     c \<in> {CHR 0x09, CHR 0x0A, CHR 0x0B, CHR 0x0C, CHR 0x0D, CHR 0x20, CHR 0xA0}"

definition trim :: "string \<Rightarrow> string" where
  "trim s = rev (dropWhile is_white_space (rev (dropWhile is_white_space s)))"

text \<open>
  \<^verbatim>\<open>String.prototype.replace\<close> with a string pattern: the first occurrence of the pattern
  is replaced, and in the replacement text \<^verbatim>\<open>$$\<close> stands for a dollar sign, \<^verbatim>\<open>$&\<close> for
  the matched text, a dollar sign with a backquote for the text before the match and a
  dollar sign with an apostrophe for the text after it. With a string pattern there are
  no capture groups, so every other dollar sign stands for itself.
\<close>

fun index_of :: "string \<Rightarrow> string \<Rightarrow> nat option" where
  "index_of pat [] = (if pat = [] then Some 0 else None)"
| "index_of pat (c # cs) =
     (if take (length pat) (c # cs) = pat then Some 0 else map_option Suc (index_of pat cs))"

fun get_substitution :: "string \<Rightarrow> string \<Rightarrow> nat \<Rightarrow> string \<Rightarrow> string" where
  "get_substitution matched str pos (c # d # r) =
     (if c = CHR ''$'' \<and> d = CHR ''$'' then CHR ''$'' # get_substitution matched str pos r
      else if c = CHR ''$'' \<and> d = CHR ''&'' then matched @ get_substitution matched str pos r
      else if c = CHR ''$'' \<and> d = CHR 0x60 then take pos str @ get_substitution matched str pos r
      else if c = CHR ''$'' \<and> d = CHR 0x27
        then drop (pos + length matched) str @ get_substitution matched str pos r
      else c # get_substitution matched str pos (d # r))"
| "get_substitution matched str pos r = r"

definition replace_first :: "string \<Rightarrow> string \<Rightarrow> string \<Rightarrow> string" where
  "replace_first str pat replacement =
     (case index_of pat str of
        None \<Rightarrow> str
      | Some pos \<Rightarrow>
          take pos str @ get_substitution pat str pos replacement @ drop (pos + length pat) str)"

text \<open>
  The pattern \<^verbatim>\<open>/\{\{([^}]+)\}\}/g\<close> anchored at the head of \<open>s\<close>: two opening braces, a
  greedy run of one or more characters other than the closing brace (the capture group),
  and two closing braces.
\<close>

definition mustache_match :: "string \<Rightarrow> (string \<times> nat) option" where
  "mustache_match s =
     (case s of
        c # d # r \<Rightarrow>
          if c = CHR ''{'' \<and> d = CHR ''{'' then
            (case give_back (\<lambda>u. take 2 u = ''}}'') r
                    (length (takeWhile (\<lambda>e. e \<noteq> CHR ''}'') r)) of
               None \<Rightarrow> None
             | Some j \<Rightarrow> Some (take j r, j + 4))
          else None
      | _ \<Rightarrow> None)"

lemma mustache_match_length: "mustache_match s = Some (g, n) \<Longrightarrow> 0 < n"
  by (auto simp: mustache_match_def split: list.splits if_splits option.splits)

text \<open>
  The first effect of the component: every match whose trimmed name is not empty becomes an
  occurrence, valid when a variable of that name is in the list.
\<close>

function parse_effect_loop :: "string \<Rightarrow> Variable list \<Rightarrow> nat \<Rightarrow> ParsedVariable list \<Rightarrow> ParsedVariable list" where
  "parse_effect_loop text variables lastIndex matches =
     (case regexp_exec mustache_match text lastIndex of
        None \<Rightarrow> matches
      | Some (index, g, n) \<Rightarrow>
          (let variableName = trim g in
           if variableName = [] then parse_effect_loop text variables (index + n) matches
           else parse_effect_loop text variables (index + n)
                  (matches @
                   [\<lparr>pvar_name = variableName, startIndex = index, endIndex = index + n,
                     isValid = (find (\<lambda>v. v_name v = variableName) variables \<noteq> None),
                     pvar_variable = find (\<lambda>v. v_name v = variableName) variables\<rparr>])))"
  by pat_completeness auto

termination
  apply (relation "measure (\<lambda>(text, variables, lastIndex, matches). Suc (length text) - lastIndex)")
    apply simp
   apply (auto dest!: regexp_exec_index dest: mustache_match_length)
  done

definition parsedVariables :: "string \<Rightarrow> Variable list \<Rightarrow> ParsedVariable list" where
  "parsedVariables text variables = parse_effect_loop text variables 0 []"

text \<open>
  The second effect: the preview starts as the text; for every match whose trimmed name is
  not empty and names a variable with a non-empty default value, the first occurrence of
  the name between double braces in the preview is replaced by that value. Nothing is
  computed when the preview is switched off or the text is empty.
\<close>

function preview_loop :: "string \<Rightarrow> Variable list \<Rightarrow> nat \<Rightarrow> string \<Rightarrow> string" where
  "preview_loop text variables lastIndex preview =
     (case regexp_exec mustache_match text lastIndex of
        None \<Rightarrow> preview
      | Some (index, g, n) \<Rightarrow>
          (let variableName = trim g in
           if variableName = [] then preview_loop text variables (index + n) preview
           else (case find (\<lambda>v. v_name v = variableName) variables of
                   None \<Rightarrow> preview_loop text variables (index + n) preview
                 | Some variable \<Rightarrow>
                     (case v_default_value variable of
                        None \<Rightarrow> preview_loop text variables (index + n) preview
                      | Some default_value \<Rightarrow>
                          if default_value = [] then preview_loop text variables (index + n) preview
                          else preview_loop text variables (index + n)
                                 (replace_first preview (''{{'' @ variableName @ ''}}'') default_value)))))"
  by pat_completeness auto

termination
  apply (relation "measure (\<lambda>(text, variables, lastIndex, preview). Suc (length text) - lastIndex)")
      apply simp
     apply (auto dest!: regexp_exec_index dest: mustache_match_length)
  done

definition preview_effect :: "bool \<Rightarrow> string \<Rightarrow> Variable list \<Rightarrow> string \<Rightarrow> string" where
  "preview_effect showPreview text variables previewText =
     (if \<not> showPreview \<or> text = [] then previewText
      else preview_loop text variables 0 text)"

section \<open>Example states and inputs\<close>

text \<open>
  Concrete hosts, variables, stored collections and popup states at which the properties
  below are evaluated.
\<close>

definition example_adds :: "(string \<times> int \<times> NewPrompt) list" where
  "example_adds =
     map (\<lambda>n. (replicate (Suc n) CHR ''u'', int n, \<lparr>np_original = ''p'', np_optimized = ''q''\<rparr>)) [0..<21]"

definition alice :: UserVariable where
  "alice = \<lparr>uv_id = ''id-1'', uv_name = ''NAME'', uv_value = ''Alice'',
            uv_description = None, uv_category = None, uv_timestamp = 1\<rparr>"

definition paris :: UserVariable where
  "paris = \<lparr>uv_id = ''id-2'', uv_name = ''PLACE'', uv_value = ''Paris'',
            uv_description = None, uv_category = None, uv_timestamp = 2\<rparr>"

definition two_variables :: storage where
  "two_variables = \<lparr>user_variables = Some [alice, paris], recent_prompts = None\<rparr>"

definition read_fails :: host where
  "read_fails = \<lparr>available = True, get_rejects = True, set_rejects = False\<rparr>"

definition write_fails :: host where
  "write_fails = \<lparr>available = True, get_rejects = False, set_rejects = True\<rparr>"

definition place_v1 :: NewVariable where
  "place_v1 = \<lparr>nv_name = ''PLACE'', nv_value = ''v1'', nv_description = None, nv_category = None\<rparr>"

definition place_v2 :: NewVariable where
  "place_v2 = \<lparr>nv_name = ''PLACE'', nv_value = ''v2'', nv_description = None, nv_category = None\<rparr>"

definition x_v1 :: NewVariable where
  "x_v1 = \<lparr>nv_name = ''X'', nv_value = ''v1'', nv_description = None, nv_category = None\<rparr>"

definition x_v2 :: NewVariable where
  "x_v2 = \<lparr>nv_name = ''X'', nv_value = ''v2'', nv_description = None, nv_category = None\<rparr>"

definition rename_onto_existing :: "store_op list" where
  "rename_onto_existing =
     [Add working_host ''id-1'' 1 \<lparr>nv_name = ''A'', nv_value = ''1'', nv_description = None, nv_category = None\<rparr>,
      Add working_host ''id-2'' 2 \<lparr>nv_name = ''B'', nv_value = ''2'', nv_description = None, nv_category = None\<rparr>,
      Update working_host 3
        \<lparr>uv_id = ''id-2'', uv_name = ''A'', uv_value = ''2'', uv_description = None, uv_category = None,
         uv_timestamp = 2\<rparr>]"

definition greeting :: popup where
  "greeting =
     \<lparr>optimizationResult = Some \<lparr>original = ''hi'', optimized = ''Hi [NAME] and [NAME] again''\<rparr>,
      userVariables = [], variableReplaceDialog = closed_dialog\<rparr>"

definition bob_typed :: popup where
  "bob_typed =
     (handleVariableClick ''NAME'' 3 9 greeting)
       \<lparr>variableReplaceDialog :=
          (variableReplaceDialog (handleVariableClick ''NAME'' 3 9 greeting))\<lparr>currentValue := ''Bob''\<rparr>\<rparr>"

definition bob :: UserVariable where
  "bob = \<lparr>uv_id = ''id-1'', uv_name = ''NAME'', uv_value = ''Bob'',
          uv_description = Some ''Variable for NAME'', uv_category = Some ''general'',
          uv_timestamp = 1\<rparr>"

definition bob_replaced :: popup where
  "bob_replaced =
     \<lparr>optimizationResult = Some \<lparr>original = ''hi'', optimized = ''Hi Bob and [NAME] again''\<rparr>,
      userVariables = [bob], variableReplaceDialog = closed_dialog\<rparr>"

definition alice_selected :: popup where
  "alice_selected =
     (handleVariableClick ''NAME'' 3 9 (greeting\<lparr>userVariables := [alice, paris]\<rparr>))
       \<lparr>variableReplaceDialog :=
          (variableReplaceDialog (handleVariableClick ''NAME'' 3 9 (greeting\<lparr>userVariables := [alice, paris]\<rparr>)))
            \<lparr>useExisting := True, selectedVariable := Some alice\<rparr>\<rparr>"

definition name_alice :: Variable where
  "name_alice = \<lparr>v_name = ''name'', v_default_value = Some ''Alice''\<rparr>"

section \<open>Properties of the bracket parser and of the rendering\<close>

lemma give_back_short:
  "k < length (takeWhile (\<lambda>d. d \<noteq> c) r) \<Longrightarrow>
   give_back (\<lambda>u. case u of [] \<Rightarrow> False | d # _ \<Rightarrow> d = c) r k = None"
proof (induction k)
  case 0
  show ?case by simp
next
  case (Suc k)
  let ?tw = "takeWhile (\<lambda>d. d \<noteq> c) r"
  from Suc.prems have lt: "Suc k < length ?tw" .
  have "length ?tw \<le> length r" by (rule length_takeWhile_le)
  with lt have "Suc k < length r" by simp
  then have d: "drop (Suc k) r = r ! Suc k # drop (Suc (Suc k)) r"
    by (simp add: Cons_nth_drop_Suc)
  from lt have "r ! Suc k = ?tw ! Suc k" by (simp add: takeWhile_nth)
  moreover from lt have "?tw ! Suc k \<in> set ?tw" by simp
  ultimately have "r ! Suc k \<noteq> c" by (auto dest: set_takeWhileD)
  with d Suc.IH lt show ?case by simp
qed

lemma give_back_run:
  "give_back (\<lambda>u. case u of [] \<Rightarrow> False | d # _ \<Rightarrow> d = c) r (length (takeWhile (\<lambda>d. d \<noteq> c) r)) =
     (if takeWhile (\<lambda>d. d \<noteq> c) r \<noteq> [] \<and> length (takeWhile (\<lambda>d. d \<noteq> c) r) < length r
      then Some (length (takeWhile (\<lambda>d. d \<noteq> c) r)) else None)"
proof (cases "length (takeWhile (\<lambda>d. d \<noteq> c) r)")
  case 0
  then show ?thesis by simp
next
  case (Suc k)
  let ?tw = "takeWhile (\<lambda>d. d \<noteq> c) r"
  have dr: "drop (length ?tw) r = dropWhile (\<lambda>d. d \<noteq> c) r"
    by (simp add: dropWhile_eq_drop)
  have short: "give_back (\<lambda>u. case u of [] \<Rightarrow> False | d # _ \<Rightarrow> d = c) r k = None"
    using Suc by (intro give_back_short) simp
  show ?thesis
  proof (cases "length ?tw < length r")
    case True
    then have ne: "dropWhile (\<lambda>d. d \<noteq> c) r \<noteq> []"
      by (metis dr drop_eq_Nil not_le)
    then have "hd (dropWhile (\<lambda>d. d \<noteq> c) r) = c"
      using hd_dropWhile [of "\<lambda>d. d \<noteq> c" r] by simp
    with ne have "(case drop (Suc k) r of [] \<Rightarrow> False | d # _ \<Rightarrow> d = c)"
      using dr Suc by (cases "dropWhile (\<lambda>d. d \<noteq> c) r") auto
    with True Suc show ?thesis by auto
  next
    case False
    then have "length ?tw = length r" using length_takeWhile_le [of "\<lambda>d. d \<noteq> c" r] by simp
    then have "drop (Suc k) r = []" using Suc by simp
    with False Suc short show ?thesis by simp
  qed
qed

lemma bracket_match_Cons:
  "bracket_match (c # r) =
     (if c = CHR ''['' \<and> takeWhile (\<lambda>d. d \<noteq> CHR '']'') r \<noteq> []
         \<and> length (takeWhile (\<lambda>d. d \<noteq> CHR '']'') r) < length r
      then Some (takeWhile (\<lambda>d. d \<noteq> CHR '']'') r, length (takeWhile (\<lambda>d. d \<noteq> CHR '']'') r) + 2)
      else None)"
  by (simp add: bracket_match_def give_back_run takeWhile_eq_take [symmetric])

lemma exec_scan_None:
  "regexp_exec bracket_match t i = None \<Longrightarrow> i \<le> length t \<Longrightarrow>
   scan_placeholders i (drop i t) = []"
proof (induction bracket_match t i rule: regexp_exec.induct)
  case (1 t i)
  show ?case
  proof (cases "i < length t")
    case False
    with "1.prems" show ?thesis by simp
  next
    case True
    then have d: "drop i t = t ! i # drop (Suc i) t" by (simp add: Cons_nth_drop_Suc)
    from "1.prems" True have m: "bracket_match (drop i t) = None"
      and r: "regexp_exec bracket_match t (Suc i) = None"
      by (auto simp: regexp_exec.simps [of bracket_match t i] split: option.splits)
    from "1.hyps" [OF _ m r] True have "scan_placeholders (Suc i) (drop (Suc i) t) = []" by simp
    with m d show ?thesis by (auto simp: bracket_match_Cons split: if_splits)
  qed
qed

lemma exec_scan_Some:
  "regexp_exec bracket_match t i = Some (idx, g, n) \<Longrightarrow>
   g \<noteq> [] \<and> idx + n \<le> length t \<and>
   scan_placeholders i (drop i t) =
     \<lparr>pv_name = g, pv_start = idx, pv_end = idx + n\<rparr> # scan_placeholders (idx + n) (drop (idx + n) t)"
proof (induction bracket_match t i rule: regexp_exec.induct)
  case (1 t i)
  from "1.prems" have le: "i \<le> length t"
    by (auto simp: regexp_exec.simps [of bracket_match t i] split: if_splits)
  show ?case
  proof (cases "i < length t")
    case False
    with le have "drop i t = []" by simp
    then have "bracket_match (drop i t) = None" by (simp add: bracket_match_def)
    with "1.prems" False le have "regexp_exec bracket_match t (Suc i) = Some (idx, g, n)"
      by (auto simp: regexp_exec.simps [of bracket_match t i])
    moreover from False le have "length t < Suc i" by simp
    ultimately show ?thesis by (simp add: regexp_exec.simps [of bracket_match t "Suc i"])
  next
    case True
    then have d: "drop i t = t ! i # drop (Suc i) t" by (simp add: Cons_nth_drop_Suc)
    show ?thesis
    proof (cases "bracket_match (drop i t)")
      case None
      with "1.prems" True have r: "regexp_exec bracket_match t (Suc i) = Some (idx, g, n)"
        by (auto simp: regexp_exec.simps [of bracket_match t i])
      from "1.hyps" [OF _ None r] True
      have "g \<noteq> [] \<and> idx + n \<le> length t \<and>
        scan_placeholders (Suc i) (drop (Suc i) t) =
        \<lparr>pv_name = g, pv_start = idx, pv_end = idx + n\<rparr> # scan_placeholders (idx + n) (drop (idx + n) t)"
        by simp
      with None d show ?thesis by (auto simp: bracket_match_Cons split: if_splits)
    next
      case (Some r)
      with "1.prems" True have r: "bracket_match (drop i t) = Some (g, n)" and i: "idx = i"
        by (auto simp: regexp_exec.simps [of bracket_match t i])
      let ?tw = "takeWhile (\<lambda>d. d \<noteq> CHR '']'') (drop (Suc i) t)"
      from r d have g: "g = ?tw" and n: "n = length ?tw + 2" and ne: "?tw \<noteq> []"
        and lt: "length ?tw < length (drop (Suc i) t)" and c: "t ! i = CHR ''[''"
        by (auto simp: bracket_match_Cons split: if_splits)
      from lt True have bound: "idx + n \<le> length t" using i n by simp
      have "drop (Suc (length ?tw)) (drop (Suc i) t) = drop (idx + n) t"
        using i n by (simp add: add.commute)
      with d g n ne lt i bound c show ?thesis by (simp add: add.commute)
    qed
  qed
qed

lemma parse_loop_scan:
  "i \<le> length t \<Longrightarrow> parse_loop t i acc = acc @ scan_placeholders i (drop i t)"
proof (induction t i acc rule: parse_loop.induct)
  case (1 t i acc)
  show ?case
  proof (cases "regexp_exec bracket_match t i")
    case None
    with "1.prems" show ?thesis by (simp add: exec_scan_None)
  next
    case (Some r)
    obtain idx g n where r: "r = (idx, g, n)" by (cases r) auto
    from Some r have ex: "regexp_exec bracket_match t i = Some (idx, g, n)" by simp
    note s = exec_scan_Some [OF ex]
    from s have le: "idx + n \<le> length t" and g: "g \<noteq> []" by simp_all
    have "parse_loop t (idx + n)
            (if g \<noteq> [] then acc @ [\<lparr>pv_name = g, pv_start = idx, pv_end = idx + n\<rparr>] else acc) =
          (if g \<noteq> [] then acc @ [\<lparr>pv_name = g, pv_start = idx, pv_end = idx + n\<rparr>] else acc) @
          scan_placeholders (idx + n) (drop (idx + n) t)"
      by (rule "1.IH" [OF ex refl refl le])
    with ex s show ?thesis by (simp add: parse_loop.simps [of t i acc])
  qed
qed

lemma take_Suc_takeWhile:
  assumes "length (takeWhile (\<lambda>d. d \<noteq> c) cs) < length cs"
  shows "take (Suc (length (takeWhile (\<lambda>d. d \<noteq> c) cs))) cs = takeWhile (\<lambda>d. d \<noteq> c) cs @ [c]"
proof -
  let ?tw = "takeWhile (\<lambda>d. d \<noteq> c) cs" and ?dw = "dropWhile (\<lambda>d. d \<noteq> c) cs"
  have cs: "cs = ?tw @ ?dw" by simp
  from assms have "?dw \<noteq> []"
    by (metis cs append_Nil2 less_irrefl)
  then obtain x xs where dw: "?dw = x # xs" by (cases ?dw) auto
  with hd_dropWhile [of "\<lambda>d. d \<noteq> c" cs] have "x = c" by auto
  with dw have "cs = ?tw @ c # xs" using cs by simp
  then have "take (Suc (length ?tw)) cs = take (Suc (length ?tw)) (?tw @ c # xs)" by simp
  also have "\<dots> = ?tw @ [c]" by simp
  finally show ?thesis .
qed

lemma scan_occurrence:
  "v \<in> set (scan_placeholders off s) \<Longrightarrow>
     off \<le> pv_start v \<and> pv_end v = pv_start v + length (pv_name v) + 2 \<and>
     pv_end v \<le> off + length s \<and> pv_name v \<noteq> [] \<and> CHR '']'' \<notin> set (pv_name v) \<and>
     take (length (pv_name v) + 2) (drop (pv_start v - off) s) = CHR ''['' # pv_name v @ [CHR '']'']"
proof (induction off s rule: scan_placeholders.induct)
  case (1 off)
  then show ?case by simp
next
  case (2 off c cs)
  let ?tw = "takeWhile (\<lambda>d. d \<noteq> CHR '']'') cs"
  show ?case
  proof (cases "c = CHR ''['' \<and> ?tw \<noteq> [] \<and> length ?tw < length cs")
    case False
    with "2.prems" have "v \<in> set (scan_placeholders (Suc off) cs)" by auto
    with "2.IH"(2) False
    have ih: "Suc off \<le> pv_start v \<and> pv_end v = pv_start v + length (pv_name v) + 2 \<and>
     pv_end v \<le> Suc off + length cs \<and> pv_name v \<noteq> [] \<and> CHR '']'' \<notin> set (pv_name v) \<and>
     take (length (pv_name v) + 2) (drop (pv_start v - Suc off) cs) = CHR ''['' # pv_name v @ [CHR '']'']"
      by blast
    then have "Suc off \<le> pv_start v" by simp
    then have "pv_start v - off = Suc (pv_start v - Suc off)" by arith
    with ih show ?thesis by simp
  next
    case True
    let ?hd = "\<lparr>pv_name = ?tw, pv_start = off, pv_end = off + length ?tw + 2\<rparr>"
    let ?off' = "off + length ?tw + 2"
    from True "2.prems"
    have "v = ?hd \<or> v \<in> set (scan_placeholders ?off' (drop (Suc (length ?tw)) cs))"
      by auto
    then show ?thesis
    proof
      assume v: "v = ?hd"
      have "CHR '']'' \<notin> set ?tw" by (auto dest: set_takeWhileD)
      moreover have "take (length ?tw + 2) (c # cs) = CHR ''['' # ?tw @ [CHR '']'']"
        using True take_Suc_takeWhile [of "CHR '']''" cs] by simp
      ultimately show ?thesis using v True by simp
    next
      assume "v \<in> set (scan_placeholders ?off' (drop (Suc (length ?tw)) cs))"
      with "2.IH"(1) True
      have ih: "?off' \<le> pv_start v \<and> pv_end v = pv_start v + length (pv_name v) + 2 \<and>
       pv_end v \<le> ?off' + length (drop (Suc (length ?tw)) cs) \<and> pv_name v \<noteq> [] \<and>
       CHR '']'' \<notin> set (pv_name v) \<and>
       take (length (pv_name v) + 2) (drop (pv_start v - ?off') (drop (Suc (length ?tw)) cs))
         = CHR ''['' # pv_name v @ [CHR '']'']"
        by blast
      then have st: "?off' \<le> pv_start v"
        and en: "pv_end v = pv_start v + length (pv_name v) + 2"
        and bd: "pv_end v \<le> ?off' + length (drop (Suc (length ?tw)) cs)"
        and nm: "pv_name v \<noteq> []" "CHR '']'' \<notin> set (pv_name v)"
        and tk: "take (length (pv_name v) + 2) (drop (pv_start v - ?off') (drop (Suc (length ?tw)) cs))
           = CHR ''['' # pv_name v @ [CHR '']'']"
        by blast+
      from st have "pv_start v - off = Suc ((pv_start v - ?off') + Suc (length ?tw))" by arith
      then have "drop (pv_start v - off) (c # cs) = drop (pv_start v - ?off') (drop (Suc (length ?tw)) cs)"
        by (simp add: add.commute)
      with tk have tk': "take (length (pv_name v) + 2) (drop (pv_start v - off) (c # cs))
           = CHR ''['' # pv_name v @ [CHR '']'']"
        by simp
      from True have "length ?tw < length cs" by simp
      with bd have bd': "pv_end v \<le> off + length (c # cs)" by simp
      from st have st': "off \<le> pv_start v" by arith
      from st' en bd' nm tk' show ?thesis by blast
    qed
  qed
qed

lemma scan_disjoint:
  "sorted_wrt (\<lambda>a b. pv_end a \<le> pv_start b) (scan_placeholders off s)"
proof (induction off s rule: scan_placeholders.induct)
  case (1 off)
  show ?case by simp
next
  case (2 off c cs)
  then show ?case by (auto dest: scan_occurrence)
qed

lemma parse_is_scan: "parseVariablesFromText t = scan_placeholders 0 t"
  using parse_loop_scan [of 0 t "[]"] by (simp add: parseVariablesFromText_def)

lemma take_substring: "a \<le> b \<Longrightarrow> b \<le> length s \<Longrightarrow> take a s @ substring s a b = take b s"
proof -
  assume ab: "a \<le> b" and b: "b \<le> length s"
  then have "substring s a b = take (b - a) (drop a s)"
    by (simp add: substring_def min_def max_def)
  moreover have "take (a + (b - a)) s = take a s @ take (b - a) (drop a s)"
    by (rule take_add)
  ultimately show ?thesis using ab by simp
qed

lemma fold_render:
  "\<forall>v \<in> set vs. pv_end v \<le> length t \<and> pv_start v \<le> pv_end v \<and>
      substring t (pv_start v) (pv_end v) = CHR ''['' # pv_name v @ [CHR '']''] \<Longrightarrow>
   \<forall>v \<in> set vs. li \<le> pv_start v \<Longrightarrow>
   sorted_wrt (\<lambda>a b. pv_end a \<le> pv_start b) vs \<Longrightarrow>
   concat (map element_text els) = take li t \<Longrightarrow> li \<le> length t \<Longrightarrow>
   fold (render_variable t) vs (els, li) = (els', li') \<Longrightarrow>
   concat (map element_text els') = take li' t \<and> li' \<le> length t"
proof (induction vs arbitrary: els li)
  case Nil
  then show ?case by simp
next
  case (Cons v vs)
  let ?els1 = "(if li < pv_start v then els @ [TextSpan (substring t li (pv_start v))] else els)
                @ [VariableBox (pv_name v) (pv_start v) (pv_end v)]"
  from Cons.prems(1) have v: "pv_end v \<le> length t" "pv_start v \<le> pv_end v"
    "substring t (pv_start v) (pv_end v) = CHR ''['' # pv_name v @ [CHR '']'']"
    by simp_all
  from Cons.prems(2) have li: "li \<le> pv_start v" by simp
  have "concat (map element_text (if li < pv_start v then els @ [TextSpan (substring t li (pv_start v))] else els))
          = take (pv_start v) t"
  proof (cases "li < pv_start v")
    case True
    then show ?thesis using Cons.prems(4) v take_substring [of li "pv_start v" t] by simp
  next
    case False
    with li have "li = pv_start v" by simp
    with False Cons.prems(4) show ?thesis by simp
  qed
  then have "concat (map element_text ?els1) = take (pv_start v) t @ substring t (pv_start v) (pv_end v)"
    using v(3) by simp
  also have "\<dots> = take (pv_end v) t" using v by (intro take_substring)
  finally have inv: "concat (map element_text ?els1) = take (pv_end v) t" .
  have step: "render_variable t v (els, li) = (?els1, pv_end v)"
    by (simp add: render_variable_def)
  have f: "fold (render_variable t) vs (?els1, pv_end v) = (els', li')"
    using Cons.prems(6) unfolding fold_simps step .
  show ?case
  proof (rule Cons.IH [OF _ _ _ inv v(1) f])
    show "\<forall>v \<in> set vs. pv_end v \<le> length t \<and> pv_start v \<le> pv_end v \<and>
      substring t (pv_start v) (pv_end v) = CHR ''['' # pv_name v @ [CHR '']'']"
      using Cons.prems(1) by simp
    show "\<forall>w \<in> set vs. pv_end v \<le> pv_start w" using Cons.prems(3) by simp
    show "sorted_wrt (\<lambda>a b. pv_end a \<le> pv_start b) vs" using Cons.prems(3) by simp
  qed
qed

lemma parse_occurrence:
  assumes "v \<in> set (parseVariablesFromText t)"
  shows "pv_end v = pv_start v + length (pv_name v) + 2" and "pv_end v \<le> length t"
    and "pv_name v \<noteq> []" and "CHR '']'' \<notin> set (pv_name v)"
    and "substring t (pv_start v) (pv_end v) = CHR ''['' # pv_name v @ [CHR '']'']"
proof -
  from assms have "v \<in> set (scan_placeholders 0 t)" by (simp add: parse_is_scan)
  note s = scan_occurrence [OF this]
  from s show e: "pv_end v = pv_start v + length (pv_name v) + 2" by simp
  from s show l: "pv_end v \<le> length t" by simp
  from s show "pv_name v \<noteq> []" by simp
  from s show "CHR '']'' \<notin> set (pv_name v)" by simp
  from s have "take (length (pv_name v) + 2) (drop (pv_start v) t) = CHR ''['' # pv_name v @ [CHR '']'']"
    by simp
  moreover from e l have "substring t (pv_start v) (pv_end v) = take (length (pv_name v) + 2) (drop (pv_start v) t)"
    by (simp add: substring_def min_def max_def)
  ultimately show "substring t (pv_start v) (pv_end v) = CHR ''['' # pv_name v @ [CHR '']'']"
    by simp
qed

lemma parse_disjoint: "sorted_wrt (\<lambda>a b. pv_end a \<le> pv_start b) (parseVariablesFromText t)"
  by (simp add: parse_is_scan scan_disjoint)

lemma InteractiveText_text: "concat (map element_text (InteractiveText t)) = t"
proof (cases "parseVariablesFromText t = []")
  case True
  then show ?thesis by (simp add: InteractiveText_def)
next
  case False
  obtain els li where f: "fold (render_variable t) (parseVariablesFromText t) ([], 0) = (els, li)"
    by (cases "fold (render_variable t) (parseVariablesFromText t) ([], 0)") auto
  have "concat (map element_text els) = take li t \<and> li \<le> length t"
  proof (rule fold_render [OF _ _ parse_disjoint _ _ f])
    show "\<forall>v\<in>set (parseVariablesFromText t). pv_end v \<le> length t \<and> pv_start v \<le> pv_end v \<and>
       substring t (pv_start v) (pv_end v) = CHR ''['' # pv_name v @ [CHR '']'']"
      using parse_occurrence by auto
  qed simp_all
  then have inv: "concat (map element_text els) = take li t" and li: "li \<le> length t" by simp_all
  have "substring_from t li = drop li t" using li by (simp add: substring_from_def substring_def min_def max_def)
  with inv li f False show ?thesis
    by (auto simp: InteractiveText_def Let_def)
qed

lemma sorted_wrt_starts:
  "sorted_wrt (\<lambda>a b. pv_end a \<le> pv_start b) vs \<Longrightarrow> \<forall>v \<in> set vs. pv_start v < pv_end v \<Longrightarrow>
   sorted_wrt (\<lambda>a b. pv_start a < pv_start b) vs"
  by (induction vs) auto

lemma parse_ordered: "sorted_wrt (\<lambda>a b. pv_start a < pv_start b) (parseVariablesFromText t)"
  by (rule sorted_wrt_starts [OF parse_disjoint]) (simp add: parse_occurrence(1))

lemma slice_substring: "a \<le> b \<Longrightarrow> slice s a b = substring s a b"
  by (simp add: slice_def substring_def min_def max_def)

text \<open>
  C8. The bracket parser is a total function (its loop terminates on every text and the
  model has no failing branch), and a function of the text alone. On every text it returns
  exactly the well-formed bracket placeholders of the text, as many and in the same order,
  with strictly increasing start offsets; \<^verbatim>\<open>[A][B]\<close> parses to the two occurrences
  \<^verbatim>\<open>A\<close> and \<^verbatim>\<open>B\<close>.
\<close>

theorem parseVariablesFromText_wellformed:
  "parseVariablesFromText t = wellformed_placeholders t
   \<and> length (parseVariablesFromText t) = length (wellformed_placeholders t)
   \<and> sorted_wrt (\<lambda>a b. pv_start a < pv_start b) (parseVariablesFromText t)
   \<and> parseVariablesFromText ''[A][B]'' =
       [\<lparr>pv_name = ''A'', pv_start = 0, pv_end = 3\<rparr>, \<lparr>pv_name = ''B'', pv_start = 3, pv_end = 6\<rparr>]"
proof -
  have "parseVariablesFromText t = wellformed_placeholders t"
    by (simp add: parse_is_scan wellformed_placeholders_def)
  moreover have "parseVariablesFromText ''[A][B]'' =
       [\<lparr>pv_name = ''A'', pv_start = 0, pv_end = 3\<rparr>, \<lparr>pv_name = ''B'', pv_start = 3, pv_end = 6\<rparr>]"
    by (simp add: parse_is_scan)
  ultimately show ?thesis using parse_ordered [of t] by simp
qed

theorem parseVariablesFromText_wellformed_witness:
  "wellformed_placeholders ''Hi [NAME], [] and [PLACE'' = [\<lparr>pv_name = ''NAME'', pv_start = 3, pv_end = 9\<rparr>]
   \<and> parseVariablesFromText ''Hi [NAME], [] and [PLACE'' = [\<lparr>pv_name = ''NAME'', pv_start = 3, pv_end = 9\<rparr>]"
proof -
  have "wellformed_placeholders ''Hi [NAME], [] and [PLACE'' = [\<lparr>pv_name = ''NAME'', pv_start = 3, pv_end = 9\<rparr>]"
    by (simp add: wellformed_placeholders_def)
  with parseVariablesFromText_wellformed [of "''Hi [NAME], [] and [PLACE''"] show ?thesis
    by simp
qed

text \<open>
  C10. Every occurrence the bracket parser reports ends \<open>length name + 2\<close> after its start,
  the slice of the text between its offsets is the name between brackets, and the name is
  not empty and holds no closing bracket; each occurrence ends before the next one starts;
  and the texts of the elements InteractiveText renders, put together, are the text.
\<close>

theorem bracket_roundtrip:
  "(\<forall>v \<in> set (parseVariablesFromText t).
      pv_end v = pv_start v + length (pv_name v) + 2 \<and>
      slice t (pv_start v) (pv_end v) = CHR ''['' # pv_name v @ [CHR '']''] \<and>
      pv_name v \<noteq> [] \<and> CHR '']'' \<notin> set (pv_name v))
   \<and> sorted_wrt (\<lambda>a b. pv_end a \<le> pv_start b) (parseVariablesFromText t)
   \<and> concat (map element_text (InteractiveText t)) = t"
proof -
  have "pv_end v = pv_start v + length (pv_name v) + 2 \<and>
      slice t (pv_start v) (pv_end v) = CHR ''['' # pv_name v @ [CHR '']''] \<and>
      pv_name v \<noteq> [] \<and> CHR '']'' \<notin> set (pv_name v)"
    if v: "v \<in> set (parseVariablesFromText t)" for v
  proof -
    note p = parse_occurrence [OF v]
    from p(1) have "pv_start v \<le> pv_end v" by simp
    then have "slice t (pv_start v) (pv_end v) = substring t (pv_start v) (pv_end v)"
      by (rule slice_substring)
    with p show ?thesis by simp
  qed
  then show ?thesis using parse_disjoint [of t] InteractiveText_text [of t] by blast
qed

theorem bracket_roundtrip_witness:
  "parseVariablesFromText ''Hi [NAME] and [NAME] again'' =
     [\<lparr>pv_name = ''NAME'', pv_start = 3, pv_end = 9\<rparr>, \<lparr>pv_name = ''NAME'', pv_start = 14, pv_end = 20\<rparr>]
   \<and> slice ''Hi [NAME] and [NAME] again'' 3 9 = ''[NAME]''
   \<and> slice ''Hi [NAME] and [NAME] again'' 14 20 = ''[NAME]''
   \<and> InteractiveText ''Hi [NAME] and [NAME] again'' =
       [TextSpan ''Hi '', VariableBox ''NAME'' 3 9, TextSpan '' and '', VariableBox ''NAME'' 14 20,
        TextSpan '' again'']
   \<and> concat (map element_text (InteractiveText ''Hi [NAME] and [NAME] again'')) = ''Hi [NAME] and [NAME] again''"
proof -
  have p: "parseVariablesFromText ''Hi [NAME] and [NAME] again'' =
     [\<lparr>pv_name = ''NAME'', pv_start = 3, pv_end = 9\<rparr>, \<lparr>pv_name = ''NAME'', pv_start = 14, pv_end = 20\<rparr>]"
    by (simp add: parse_is_scan)
  have i: "InteractiveText ''Hi [NAME] and [NAME] again'' =
       [TextSpan ''Hi '', VariableBox ''NAME'' 3 9, TextSpan '' and '', VariableBox ''NAME'' 14 20,
        TextSpan '' again'']"
    by (simp add: InteractiveText_def p render_variable_def substring_def substring_from_def)
  from bracket_roundtrip [of "''Hi [NAME] and [NAME] again''"] p i show ?thesis
    by simp
qed

section \<open>Properties of the local store\<close>

lemma addRecentPrompt_working:
  "working h \<Longrightarrow>
   addRecentPrompt h uuid now prompt s =
     (Inr (), s\<lparr>recent_prompts := Some (take 20 (newPrompt uuid now prompt # or_empty (recent_prompts s)))\<rparr>)"
  by (simp add: working_def addRecentPrompt_def getRecentPrompts_def local_get_def browser_get_def
      local_set_def browser_set_def)

lemma take_append_take: "take n (xs @ take n ys) = take n (xs @ ys)"
  by (simp add: min_def)

lemma addRecentPrompts_working:
  "working h \<Longrightarrow> length (or_empty (recent_prompts s)) \<le> 20 \<Longrightarrow>
   fst (addRecentPrompts h adds s) = Inr () \<and>
   or_empty (recent_prompts (snd (addRecentPrompts h adds s))) =
     take 20 (rev (map entry adds) @ or_empty (recent_prompts s))"
proof (induction adds arbitrary: s)
  case Nil
  then show ?case by simp
next
  case (Cons a adds)
  obtain uuid now prompt where a: "a = (uuid, now, prompt)" by (cases a) auto
  let ?s' = "s\<lparr>recent_prompts := Some (take 20 (newPrompt uuid now prompt # or_empty (recent_prompts s)))\<rparr>"
  have step: "addRecentPrompts h (a # adds) s = addRecentPrompts h adds ?s'"
    using Cons.prems(1) by (simp add: a addRecentPrompt_working)
  have e: "or_empty (recent_prompts ?s') = take 20 (entry a # or_empty (recent_prompts s))"
    by (simp add: or_empty_def a entry_def del: take_Cons_numeral)
  have l: "length (or_empty (recent_prompts ?s')) \<le> 20" unfolding e by simp
  note ih = Cons.IH [OF Cons.prems(1) l]
  have eq: "take 20 (rev (map entry (a # adds)) @ or_empty (recent_prompts s)) =
        take 20 (rev (map entry adds) @ or_empty (recent_prompts ?s'))"
    unfolding e take_append_take by simp
  from ih show ?case unfolding step eq .
qed

lemma take_rev_tl: "length xs = Suc n \<Longrightarrow> take n (rev xs) = rev (tl xs)"
  by (cases xs) (simp_all add: take_rev)

text \<open>
  C4. With a working storage, one addition stores the new entry, which carries the id and
  the timestamp generated in the call, in front of the stored list, cut to its first 20
  entries. After 21 additions to an empty buffer the buffer holds 20 entries: the entries
  of the last 20 additions, the latest first; when the generated ids differ from one
  another, the entry of the first addition is not among them.
\<close>

theorem addRecentPrompt_ring_buffer:
  assumes "working h" and "or_empty (recent_prompts s) = []" and "length adds = 21"
  shows "addRecentPrompt h uuid now prompt s0 =
           (Inr (), s0\<lparr>recent_prompts :=
              Some (take 20 (\<lparr>rp_id = uuid, rp_original = np_original prompt,
                              rp_optimized = np_optimized prompt, rp_timestamp = now\<rparr>
                            # or_empty (recent_prompts s0)))\<rparr>)
    \<and> fst (addRecentPrompts h adds s) = Inr ()
    \<and> length (or_empty (recent_prompts (snd (addRecentPrompts h adds s)))) = 20
    \<and> or_empty (recent_prompts (snd (addRecentPrompts h adds s))) = rev (map entry (tl adds))
    \<and> (distinct (map fst adds) \<longrightarrow>
           entry (hd adds) \<notin> set (or_empty (recent_prompts (snd (addRecentPrompts h adds s)))))"
proof -
  have one: "addRecentPrompt h uuid now prompt s0 =
           (Inr (), s0\<lparr>recent_prompts :=
              Some (take 20 (\<lparr>rp_id = uuid, rp_original = np_original prompt,
                              rp_optimized = np_optimized prompt, rp_timestamp = now\<rparr>
                            # or_empty (recent_prompts s0)))\<rparr>)"
    using assms(1) by (simp add: addRecentPrompt_working newPrompt_def)
  from assms(2) have "length (or_empty (recent_prompts s)) \<le> 20" by simp
  note run = addRecentPrompts_working [OF assms(1) this, of adds]
  from run have fin: "fst (addRecentPrompts h adds s) = Inr ()" by simp
  from assms(3) have "length (map entry adds) = Suc 20" by simp
  then have "take 20 (rev (map entry adds)) = rev (tl (map entry adds))" by (rule take_rev_tl)
  with run assms(2)
  have buf: "or_empty (recent_prompts (snd (addRecentPrompts h adds s))) = rev (map entry (tl adds))"
    by (simp add: map_tl)
  from assms(3) have len: "length (or_empty (recent_prompts (snd (addRecentPrompts h adds s)))) = 20"
    unfolding buf by simp
  have ident: "rp_id (entry a) = fst a" for a
    by (cases a) (simp add: entry_def newPrompt_def)
  have absent: "entry (hd adds) \<notin> set (or_empty (recent_prompts (snd (addRecentPrompts h adds s))))"
    if d: "distinct (map fst adds)"
  proof
    from assms(3) obtain a rest where adds: "adds = a # rest" by (cases adds) auto
    assume "entry (hd adds) \<in> set (or_empty (recent_prompts (snd (addRecentPrompts h adds s))))"
    then have "entry a \<in> entry ` set rest" unfolding buf by (simp add: adds)
    then obtain b where b: "b \<in> set rest" "entry a = entry b" by auto
    then have "fst a = fst b" using ident [of a] ident [of b] by simp
    with b(1) d show False by (force simp: adds)
  qed
  from one fin len buf absent show ?thesis by blast
qed

lemma working_host_working: "working working_host"
  by (simp add: working_def working_host_def)

theorem addRecentPrompt_ring_buffer_witness:
  "working working_host \<and> or_empty (recent_prompts empty_items) = [] \<and> length example_adds = 21
   \<and> fst (addRecentPrompts working_host example_adds empty_items) = Inr ()
   \<and> length (or_empty (recent_prompts (snd (addRecentPrompts working_host example_adds empty_items)))) = 20
   \<and> or_empty (recent_prompts (snd (addRecentPrompts working_host example_adds empty_items)))
       = rev (map entry (tl example_adds))
   \<and> distinct (map fst example_adds)
   \<and> entry (hd example_adds)
       \<notin> set (or_empty (recent_prompts (snd (addRecentPrompts working_host example_adds empty_items))))"
proof -
  have e: "or_empty (recent_prompts empty_items) = []"
    by (simp add: or_empty_def empty_items_def)
  have l: "length example_adds = 21" by (simp add: example_adds_def)
  have "inj_on (\<lambda>n. replicate (Suc n) CHR ''u'') (set [0..<21])"
    by (rule inj_onI) (auto dest: arg_cong [where f = length])
  then have d: "distinct (map fst example_adds)"
    by (simp add: example_adds_def o_def distinct_map)
  from addRecentPrompt_ring_buffer [OF working_host_working e l] working_host_working e l d
  show ?thesis by blast
qed

lemma findIndex_None: "findIndex p xs = None \<longleftrightarrow> (\<forall>x \<in> set xs. \<not> p x)"
  by (induction xs) auto

lemma findIndex_Some:
  "findIndex p xs = Some i \<Longrightarrow> i < length xs \<and> p (xs ! i) \<and> (\<forall>j<i. \<not> p (xs ! j))"
proof (induction xs arbitrary: i)
  case Nil
  then show ?case by simp
next
  case (Cons x xs)
  show ?case
  proof (cases "p x")
    case True
    with Cons.prems show ?thesis by simp
  next
    case False
    with Cons.prems obtain k where k: "findIndex p xs = Some k" "i = Suc k" by auto
    from Cons.IH [OF k(1)] False k(2) show ?thesis by (auto simp: less_Suc_eq_0_disj)
  qed
qed

lemma getUserVariables_cases:
  "getUserVariables h s = Inr (if available h \<and> \<not> get_rejects h then or_empty (user_variables s) else [])"
  by (simp add: getUserVariables_def local_get_def browser_get_def empty_items_def or_empty_def)

lemma local_set_cases:
  "local_set h items s =
     (if \<not> available h then (Inr (), s)
      else if set_rejects h then (Inl StorageError, s) else (Inr (), items s))"
  by (simp add: local_set_def browser_set_def)



lemma addUserVariable_cases:
  "addUserVariable h uuid now variable s =
     (let variables = (if available h \<and> \<not> get_rejects h then or_empty (user_variables s) else []);
          variables' =
            (case findIndex (\<lambda>v. uv_name v = nv_name variable) variables of
               Some existingIndex \<Rightarrow> variables[existingIndex := newVariable uuid now variable]
             | None \<Rightarrow> variables @ [newVariable uuid now variable])
      in if \<not> available h then (Inr (newVariable uuid now variable), s)
         else if set_rejects h then (Inl StorageError, s)
         else (Inr (newVariable uuid now variable), s\<lparr>user_variables := Some variables'\<rparr>))"
  by (simp add: addUserVariable_def getUserVariables_cases local_set_cases Let_def)

lemma removeUserVariable_cases:
  "removeUserVariable h ident s =
     (let variables = (if available h \<and> \<not> get_rejects h then or_empty (user_variables s) else [])
      in if \<not> available h then (Inr (), s)
         else if set_rejects h then (Inl StorageError, s)
         else (Inr (), s\<lparr>user_variables := Some (filter (\<lambda>v. uv_id v \<noteq> ident) variables)\<rparr>))"
  by (simp add: removeUserVariable_def getUserVariables_cases local_set_cases Let_def)

text \<open>
  C6, as the code has it. A write that the storage rejects is surfaced: addUserVariable,
  removeUserVariable and, when the id is found, updateUserVariable end with the error and the
  persisted collection is as before. A read that the storage rejects is not surfaced:
  getUserVariables never ends with an error, and answers the empty list when the read is
  rejected or the storage API is missing.
\<close>

theorem write_failures_propagate:
  "(available h \<and> set_rejects h \<longrightarrow>
      addUserVariable h uuid now variable s = (Inl StorageError, s)
      \<and> removeUserVariable h ident s = (Inl StorageError, s)
      \<and> (\<not> get_rejects h \<and> uv_id v \<in> uv_id ` set (or_empty (user_variables s)) \<longrightarrow>
           updateUserVariable h now v s = (Inl StorageError, s)))
   \<and> (\<exists>vs. getUserVariables h s = Inr vs)
   \<and> (get_rejects h \<or> \<not> available h \<longrightarrow> getUserVariables h s = Inr [])"
proof -
  have "updateUserVariable h now v s = (Inl StorageError, s)"
    if "available h" "set_rejects h" "\<not> get_rejects h" "uv_id v \<in> uv_id ` set (or_empty (user_variables s))"
  proof -
    from that(4) have "findIndex (\<lambda>w. uv_id w = uv_id v) (or_empty (user_variables s)) \<noteq> None"
      by (auto simp: findIndex_None)
    then obtain i where "findIndex (\<lambda>w. uv_id w = uv_id v) (or_empty (user_variables s)) = Some i"
      by auto
    with that show ?thesis
      by (simp add: updateUserVariable_def getUserVariables_cases local_set_cases Let_def)
  qed
  then show ?thesis
    by (auto simp: addUserVariable_cases removeUserVariable_cases getUserVariables_cases Let_def)
qed

theorem write_failures_propagate_witness:
  "available write_fails \<and> set_rejects write_fails \<and> \<not> get_rejects write_fails
   \<and> uv_id paris \<in> uv_id ` set (or_empty (user_variables two_variables))
   \<and> addUserVariable write_fails ''id-3'' 3
        \<lparr>nv_name = ''X'', nv_value = ''v'', nv_description = None, nv_category = None\<rparr> two_variables
       = (Inl StorageError, two_variables)
   \<and> removeUserVariable write_fails ''id-1'' two_variables = (Inl StorageError, two_variables)
   \<and> updateUserVariable write_fails 3 paris two_variables = (Inl StorageError, two_variables)
   \<and> get_rejects read_fails \<and> getUserVariables read_fails two_variables = Inr []"
proof -
  have h: "available write_fails \<and> set_rejects write_fails" and g: "\<not> get_rejects write_fails"
    by (simp_all add: write_fails_def)
  have p: "uv_id paris \<in> uv_id ` set (or_empty (user_variables two_variables))"
    by (simp add: two_variables_def or_empty_def)
  have r: "get_rejects read_fails" by (simp add: read_fails_def)
  note w = write_failures_propagate
    [where h = write_fails and s = two_variables and v = paris and now = 3 and uuid = "''id-3''"
       and ident = "''id-1''"
       and variable = "\<lparr>nv_name = ''X'', nv_value = ''v'', nv_description = None, nv_category = None\<rparr>",
     THEN conjunct1, THEN mp, OF h]
  note rd = write_failures_propagate
    [where h = read_fails and s = two_variables, THEN conjunct2, THEN conjunct2, THEN mp, OF disjI1 [OF r]]
  from w g p have "updateUserVariable write_fails 3 paris two_variables = (Inl StorageError, two_variables)"
    by blast
  with w rd h g p r show ?thesis by blast
qed

text \<open>
  C6 fails for reads: the storage holds two variables, the read is rejected, and
  getUserVariables answers the empty list as a success.
\<close>

theorem read_failure_swallowed:
  "getUserVariables \<lparr>available = True, get_rejects = True, set_rejects = False\<rparr>
     \<lparr>user_variables = Some [alice, paris], recent_prompts = None\<rparr> = Inr []
   \<and> browser_get \<lparr>available = True, get_rejects = True, set_rejects = False\<rparr>
     \<lparr>user_variables = Some [alice, paris], recent_prompts = None\<rparr> = Inl StorageError"
  by (simp add: getUserVariables_def local_get_def browser_get_def empty_items_def or_empty_def)

text \<open>What addUserVariable does to the list it has read.\<close>

lemma filter_upsert:
  "p new \<Longrightarrow> length (filter p vars) \<le> 1 \<Longrightarrow>
   filter p (case findIndex p vars of Some i \<Rightarrow> vars[i := new] | None \<Rightarrow> vars @ [new]) = [new]"
proof (induction vars)
  case Nil
  then show ?case by simp
next
  case (Cons x xs)
  show ?case
  proof (cases "p x")
    case True
    with Cons.prems show ?thesis by simp
  next
    case False
    with Cons.prems Cons.IH show ?thesis by (cases "findIndex p xs") simp_all
  qed
qed

lemma findIndex_update:
  "findIndex p xs = Some i \<Longrightarrow> p new \<Longrightarrow> findIndex p (xs[i := new]) = Some i"
proof (induction xs arbitrary: i)
  case Nil
  then show ?case by simp
next
  case (Cons x xs)
  show ?case
  proof (cases "p x")
    case True
    with Cons.prems show ?thesis by simp
  next
    case False
    with Cons.prems obtain k where k: "findIndex p xs = Some k" "i = Suc k" by auto
    with Cons.IH [OF k(1) Cons.prems(2)] False show ?thesis by simp
  qed
qed

lemma addUserVariable_working:
  "working h \<Longrightarrow>
   addUserVariable h uuid now variable s =
     (Inr (newVariable uuid now variable),
      s\<lparr>user_variables := Some
          (case findIndex (\<lambda>v. uv_name v = nv_name variable) (or_empty (user_variables s)) of
             Some i \<Rightarrow> (or_empty (user_variables s))[i := newVariable uuid now variable]
           | None \<Rightarrow> or_empty (user_variables s) @ [newVariable uuid now variable])\<rparr>)"
  by (simp add: addUserVariable_cases working_def Let_def)

lemma or_empty_simps: "or_empty None = []" "or_empty (Some xs) = xs"
  by (simp_all add: or_empty_def)

lemma addUserVariable_twice:
  assumes "working h1" and "working h2"
    and "length (filter (\<lambda>v. uv_name v = X) (or_empty (user_variables s))) \<le> 1"
    and "addUserVariable h1 u1 n1 \<lparr>nv_name = X, nv_value = v1, nv_description = d1, nv_category = c1\<rparr> s = (r1, s1)"
    and "addUserVariable h2 u2 n2 \<lparr>nv_name = X, nv_value = v2, nv_description = d2, nv_category = c2\<rparr> s1 = (r2, s2)"
  shows "filter (\<lambda>v. uv_name v = X) (or_empty (user_variables s2)) =
           [\<lparr>uv_id = u2, uv_name = X, uv_value = v2, uv_description = d2, uv_category = c2, uv_timestamp = n2\<rparr>]
    \<and> r2 = Inr \<lparr>uv_id = u2, uv_name = X, uv_value = v2, uv_description = d2, uv_category = c2, uv_timestamp = n2\<rparr>
    \<and> r1 = Inr \<lparr>uv_id = u1, uv_name = X, uv_value = v1, uv_description = d1, uv_category = c1, uv_timestamp = n1\<rparr>
    \<and> findIndex (\<lambda>v. uv_name v = X) (or_empty (user_variables s2))
        = findIndex (\<lambda>v. uv_name v = X) (or_empty (user_variables s1))
    \<and> length (or_empty (user_variables s2)) = length (or_empty (user_variables s1))
    \<and> (case findIndex (\<lambda>v. uv_name v = X) (or_empty (user_variables s)) of
          Some i \<Rightarrow> or_empty (user_variables s1) =
            (or_empty (user_variables s))
              [i := \<lparr>uv_id = u1, uv_name = X, uv_value = v1, uv_description = d1, uv_category = c1, uv_timestamp = n1\<rparr>]
        | None \<Rightarrow> or_empty (user_variables s1) =
            or_empty (user_variables s)
              @ [\<lparr>uv_id = u1, uv_name = X, uv_value = v1, uv_description = d1, uv_category = c1, uv_timestamp = n1\<rparr>])"
proof -
  let ?p = "\<lambda>v. uv_name v = X"
  let ?new1 = "\<lparr>uv_id = u1, uv_name = X, uv_value = v1, uv_description = d1, uv_category = c1, uv_timestamp = n1\<rparr>"
  let ?new2 = "\<lparr>uv_id = u2, uv_name = X, uv_value = v2, uv_description = d2, uv_category = c2, uv_timestamp = n2\<rparr>"
  let ?vars = "or_empty (user_variables s)"
  let ?vars1 = "case findIndex ?p ?vars of Some i \<Rightarrow> ?vars[i := ?new1] | None \<Rightarrow> ?vars @ [?new1]"
  have nv1: "newVariable u1 n1 \<lparr>nv_name = X, nv_value = v1, nv_description = d1, nv_category = c1\<rparr> = ?new1"
    and nv2: "newVariable u2 n2 \<lparr>nv_name = X, nv_value = v2, nv_description = d2, nv_category = c2\<rparr> = ?new2"
    by (simp_all add: newVariable_def)
  from assms(4) addUserVariable_working [OF assms(1), where uuid = u1 and now = n1 and s = s
      and variable = "\<lparr>nv_name = X, nv_value = v1, nv_description = d1, nv_category = c1\<rparr>", unfolded nv1]
  have "(r1, s1) = (Inr ?new1, s\<lparr>user_variables := Some ?vars1\<rparr>)"
    by simp
  then have r1: "r1 = Inr ?new1" and s1: "or_empty (user_variables s1) = ?vars1"
    by (simp_all add: or_empty_simps)
  let ?vars2 = "case findIndex ?p ?vars1 of Some i \<Rightarrow> ?vars1[i := ?new2] | None \<Rightarrow> ?vars1 @ [?new2]"
  from assms(2,5) have "(r2, s2) = (Inr ?new2, s1\<lparr>user_variables := Some
      (case findIndex ?p (or_empty (user_variables s1)) of
         Some i \<Rightarrow> (or_empty (user_variables s1))[i := ?new2]
       | None \<Rightarrow> or_empty (user_variables s1) @ [?new2])\<rparr>)"
    using addUserVariable_working [OF assms(2), where uuid = u2 and now = n2 and s = s1
      and variable = "\<lparr>nv_name = X, nv_value = v2, nv_description = d2, nv_category = c2\<rparr>", unfolded nv2] by simp
  then have r2: "r2 = Inr ?new2"
    and s2': "or_empty (user_variables s2) =
      (case findIndex ?p (or_empty (user_variables s1)) of
         Some i \<Rightarrow> (or_empty (user_variables s1))[i := ?new2]
       | None \<Rightarrow> or_empty (user_variables s1) @ [?new2])"
    by (simp_all add: or_empty_simps)
  from s2' have s2: "or_empty (user_variables s2) = ?vars2" unfolding s1 .
  have f1: "filter ?p ?vars1 = [?new1]"
    using assms(3) by (intro filter_upsert) simp_all
  then have f2: "filter ?p ?vars2 = [?new2]"
    by (intro filter_upsert) simp_all
  from f1 have "filter ?p ?vars1 \<noteq> []" by simp
  then have "findIndex ?p ?vars1 \<noteq> None"
    unfolding findIndex_None filter_empty_conv .
  then obtain i where i: "findIndex ?p ?vars1 = Some i" by auto
  then have v2: "?vars2 = ?vars1[i := ?new2]" by simp
  have pos: "findIndex ?p ?vars2 = findIndex ?p ?vars1"
    unfolding v2 using findIndex_update [OF i, of ?new2] i by simp
  have len: "length ?vars2 = length ?vars1" unfolding v2 by simp
  have gen: "case findIndex ?p ?vars of Some i \<Rightarrow> or_empty (user_variables s1) = ?vars[i := ?new1]
        | None \<Rightarrow> or_empty (user_variables s1) = ?vars @ [?new1]"
    unfolding s1 by (simp split: option.splits)
  from f2 r2 r1 pos len gen show ?thesis unfolding s2 s1 by blast
qed

text \<open>
  C1, as the code has it. With a working storage: when a variable with the given name is
  stored, the first such variable is overwritten in place by the new record, which carries
  the id generated in this call; otherwise the new record is appended. From a collection
  with at most one variable named \<open>X\<close>, two upserts of \<open>X\<close> leave exactly one variable
  named \<open>X\<close>, with the second value and the id generated in the second call, at the
  position the variable had after the first call.
\<close>

theorem addUserVariable_upsert:
  "(working h \<longrightarrow>
      addUserVariable h uuid now variable s =
        (Inr \<lparr>uv_id = uuid, uv_name = nv_name variable, uv_value = nv_value variable,
              uv_description = nv_description variable, uv_category = nv_category variable,
              uv_timestamp = now\<rparr>,
         s\<lparr>user_variables := Some
             (case findIndex (\<lambda>v. uv_name v = nv_name variable) (or_empty (user_variables s)) of
                Some i \<Rightarrow> (or_empty (user_variables s))
                  [i := \<lparr>uv_id = uuid, uv_name = nv_name variable, uv_value = nv_value variable,
                         uv_description = nv_description variable, uv_category = nv_category variable,
                         uv_timestamp = now\<rparr>]
              | None \<Rightarrow> or_empty (user_variables s)
                  @ [\<lparr>uv_id = uuid, uv_name = nv_name variable, uv_value = nv_value variable,
                      uv_description = nv_description variable, uv_category = nv_category variable,
                      uv_timestamp = now\<rparr>])\<rparr>)
      \<and> (\<forall>i. findIndex (\<lambda>v. uv_name v = nv_name variable) (or_empty (user_variables s)) = Some i \<longrightarrow>
            i < length (or_empty (user_variables s))
            \<and> uv_name (or_empty (user_variables s) ! i) = nv_name variable
            \<and> (\<forall>j<i. uv_name (or_empty (user_variables s) ! j) \<noteq> nv_name variable))
      \<and> (findIndex (\<lambda>v. uv_name v = nv_name variable) (or_empty (user_variables s)) = None
            \<longleftrightarrow> nv_name variable \<notin> uv_name ` set (or_empty (user_variables s))))
   \<and> (working h1 \<and> working h2
        \<and> length (filter (\<lambda>v. uv_name v = X) (or_empty (user_variables s0))) \<le> 1
        \<and> addUserVariable h1 u1 n1 \<lparr>nv_name = X, nv_value = v1, nv_description = d1, nv_category = c1\<rparr> s0 = (r1, s1)
        \<and> addUserVariable h2 u2 n2 \<lparr>nv_name = X, nv_value = v2, nv_description = d2, nv_category = c2\<rparr> s1 = (r2, s2)
      \<longrightarrow>
        filter (\<lambda>v. uv_name v = X) (or_empty (user_variables s2)) =
           [\<lparr>uv_id = u2, uv_name = X, uv_value = v2, uv_description = d2, uv_category = c2, uv_timestamp = n2\<rparr>]
        \<and> r2 = Inr \<lparr>uv_id = u2, uv_name = X, uv_value = v2, uv_description = d2, uv_category = c2, uv_timestamp = n2\<rparr>
        \<and> r1 = Inr \<lparr>uv_id = u1, uv_name = X, uv_value = v1, uv_description = d1, uv_category = c1, uv_timestamp = n1\<rparr>
        \<and> findIndex (\<lambda>v. uv_name v = X) (or_empty (user_variables s2))
            = findIndex (\<lambda>v. uv_name v = X) (or_empty (user_variables s1))
        \<and> length (or_empty (user_variables s2)) = length (or_empty (user_variables s1)))"
proof -
  let ?p = "\<lambda>v. uv_name v = nv_name variable"
  let ?vars = "or_empty (user_variables s)"
  have eq: "addUserVariable h uuid now variable s =
        (Inr \<lparr>uv_id = uuid, uv_name = nv_name variable, uv_value = nv_value variable,
              uv_description = nv_description variable, uv_category = nv_category variable,
              uv_timestamp = now\<rparr>,
         s\<lparr>user_variables := Some
             (case findIndex ?p ?vars of
                Some i \<Rightarrow> ?vars
                  [i := \<lparr>uv_id = uuid, uv_name = nv_name variable, uv_value = nv_value variable,
                         uv_description = nv_description variable, uv_category = nv_category variable,
                         uv_timestamp = now\<rparr>]
              | None \<Rightarrow> ?vars
                  @ [\<lparr>uv_id = uuid, uv_name = nv_name variable, uv_value = nv_value variable,
                      uv_description = nv_description variable, uv_category = nv_category variable,
                      uv_timestamp = now\<rparr>])\<rparr>)"
    if "working h"
    using addUserVariable_working [OF that, of uuid now variable s] unfolding newVariable_def .
  have first: "i < length ?vars \<and> uv_name (?vars ! i) = nv_name variable
      \<and> (\<forall>j<i. uv_name (?vars ! j) \<noteq> nv_name variable)"
    if "findIndex ?p ?vars = Some i" for i
    using findIndex_Some [OF that] by simp
  have none: "findIndex ?p ?vars = None \<longleftrightarrow> nv_name variable \<notin> uv_name ` set ?vars"
    by (auto simp: findIndex_None intro: rev_image_eqI)
  have twice: "filter (\<lambda>v. uv_name v = X) (or_empty (user_variables s2)) =
           [\<lparr>uv_id = u2, uv_name = X, uv_value = v2, uv_description = d2, uv_category = c2, uv_timestamp = n2\<rparr>]
        \<and> r2 = Inr \<lparr>uv_id = u2, uv_name = X, uv_value = v2, uv_description = d2, uv_category = c2, uv_timestamp = n2\<rparr>
        \<and> r1 = Inr \<lparr>uv_id = u1, uv_name = X, uv_value = v1, uv_description = d1, uv_category = c1, uv_timestamp = n1\<rparr>
        \<and> findIndex (\<lambda>v. uv_name v = X) (or_empty (user_variables s2))
            = findIndex (\<lambda>v. uv_name v = X) (or_empty (user_variables s1))
        \<and> length (or_empty (user_variables s2)) = length (or_empty (user_variables s1))"
    if "working h1" "working h2"
      "length (filter (\<lambda>v. uv_name v = X) (or_empty (user_variables s0))) \<le> 1"
      "addUserVariable h1 u1 n1 \<lparr>nv_name = X, nv_value = v1, nv_description = d1, nv_category = c1\<rparr> s0 = (r1, s1)"
      "addUserVariable h2 u2 n2 \<lparr>nv_name = X, nv_value = v2, nv_description = d2, nv_category = c2\<rparr> s1 = (r2, s2)"
    using addUserVariable_twice [OF that] by blast
  from eq first none twice show ?thesis by blast
qed

theorem addUserVariable_upsert_witness:
  "working working_host
   \<and> findIndex (\<lambda>v. uv_name v = nv_name place_v1) (or_empty (user_variables two_variables)) = Some 1
   \<and> length (filter (\<lambda>v. uv_name v = ''PLACE'') (or_empty (user_variables two_variables))) \<le> 1
   \<and> addUserVariable working_host ''id-3'' 3 place_v1 two_variables =
       (Inr (newVariable ''id-3'' 3 place_v1),
        \<lparr>user_variables = Some [alice, newVariable ''id-3'' 3 place_v1], recent_prompts = None\<rparr>)
   \<and> addUserVariable working_host ''id-4'' 4 place_v2
         \<lparr>user_variables = Some [alice, newVariable ''id-3'' 3 place_v1], recent_prompts = None\<rparr> =
       (Inr (newVariable ''id-4'' 4 place_v2),
        \<lparr>user_variables = Some [alice, newVariable ''id-4'' 4 place_v2], recent_prompts = None\<rparr>)
   \<and> filter (\<lambda>v. uv_name v = ''PLACE'')
         (or_empty (user_variables
            \<lparr>user_variables = Some [alice, newVariable ''id-4'' 4 place_v2], recent_prompts = None\<rparr>)) =
       [\<lparr>uv_id = ''id-4'', uv_name = ''PLACE'', uv_value = ''v2'', uv_description = None,
         uv_category = None, uv_timestamp = 4\<rparr>]"
proof -
  have one: "length (filter (\<lambda>v. uv_name v = ''PLACE'') (or_empty (user_variables two_variables))) \<le> 1"
    by (simp add: two_variables_def or_empty_simps alice_def paris_def)
  have idx: "findIndex (\<lambda>v. uv_name v = nv_name place_v1) (or_empty (user_variables two_variables)) = Some 1"
    by (simp add: two_variables_def or_empty_simps alice_def paris_def place_v1_def)
  note single = addUserVariable_upsert
    [where h = working_host and uuid = "''id-3''" and now = 3 and variable = place_v1 and s = two_variables,
     THEN conjunct1, THEN mp, OF working_host_working, THEN conjunct1, unfolded idx]
  have new1: "\<lparr>uv_id = ''id-3'', uv_name = nv_name place_v1, uv_value = nv_value place_v1,
      uv_description = nv_description place_v1, uv_category = nv_category place_v1, uv_timestamp = 3\<rparr>
      = newVariable ''id-3'' 3 place_v1"
    by (simp add: newVariable_def)
  from single have a1': "addUserVariable working_host ''id-3'' 3 place_v1 two_variables =
       (Inr (newVariable ''id-3'' 3 place_v1),
        \<lparr>user_variables = Some [alice, newVariable ''id-3'' 3 place_v1], recent_prompts = None\<rparr>)"
    unfolding new1 by (simp add: two_variables_def or_empty_simps)
  then have a1: "addUserVariable working_host ''id-3'' 3
       \<lparr>nv_name = ''PLACE'', nv_value = ''v1'', nv_description = None, nv_category = None\<rparr> two_variables =
       (Inr (newVariable ''id-3'' 3 place_v1),
        \<lparr>user_variables = Some [alice, newVariable ''id-3'' 3 place_v1], recent_prompts = None\<rparr>)"
    by (simp add: place_v1_def)
  have a2: "addUserVariable working_host ''id-4'' 4
       \<lparr>nv_name = ''PLACE'', nv_value = ''v2'', nv_description = None, nv_category = None\<rparr>
         \<lparr>user_variables = Some [alice, newVariable ''id-3'' 3 place_v1], recent_prompts = None\<rparr> =
       (Inr (newVariable ''id-4'' 4 place_v2),
        \<lparr>user_variables = Some [alice, newVariable ''id-4'' 4 place_v2], recent_prompts = None\<rparr>)"
    by (simp add: addUserVariable_working [OF working_host_working] or_empty_simps
        alice_def place_v1_def place_v2_def newVariable_def)
  note t = addUserVariable_upsert
    [THEN conjunct2, THEN mp, OF conjI [OF working_host_working conjI [OF working_host_working
       conjI [OF one conjI [OF a1 a2]]]], THEN conjunct1]
  from t one idx a1' a2 working_host_working show ?thesis
    by (simp add: place_v1_def place_v2_def)
qed

text \<open>
  C1 fails as stated: the second upsert of \<open>X\<close> stores the id generated in the second call,
  not the id the variable had after the first call; and from a collection that holds two
  variables named \<open>X\<close>, two upserts leave two.
\<close>

theorem upsert_id_not_preserved:
  "map uv_id (or_empty (user_variables (snd (addUserVariable working_host ''id-2'' 2 x_v2
        (snd (addUserVariable working_host ''id-1'' 1 x_v1 empty_items))))))
     \<noteq> map uv_id (or_empty (user_variables (snd (addUserVariable working_host ''id-1'' 1 x_v1 empty_items))))
   \<and> map uv_id (or_empty (user_variables (snd (addUserVariable working_host ''id-1'' 1 x_v1 empty_items)))) = [''id-1'']
   \<and> map uv_id (or_empty (user_variables (snd (addUserVariable working_host ''id-2'' 2 x_v2
        (snd (addUserVariable working_host ''id-1'' 1 x_v1 empty_items)))))) = [''id-2'']
   \<and> map uv_name (or_empty (user_variables (snd (addUserVariable working_host ''id-2'' 2 x_v2
        (snd (addUserVariable working_host ''id-1'' 1 x_v1
           \<lparr>user_variables = Some [alice\<lparr>uv_name := ''X''\<rparr>, paris\<lparr>uv_name := ''X''\<rparr>],
            recent_prompts = None\<rparr>)))))) = [''X'', ''X'']"
  by (simp add: addUserVariable_working [OF working_host_working] or_empty_simps empty_items_def
      x_v1_def x_v2_def newVariable_def alice_def paris_def)

lemma distinct_upsert:
  "distinct (map f vars) \<Longrightarrow>
   distinct (map f (case findIndex (\<lambda>v. f v = f new) vars of
                      Some i \<Rightarrow> vars[i := new] | None \<Rightarrow> vars @ [new]))"
proof (induction vars)
  case Nil
  then show ?case by simp
next
  case (Cons x xs)
  show ?case
  proof (cases "f x = f new")
    case True
    with Cons.prems show ?thesis by simp
  next
    case False
    note neq = this
    show ?thesis
    proof (cases "findIndex (\<lambda>v. f v = f new) xs")
      case None
      with Cons.prems Cons.IH neq show ?thesis by auto
    next
      case (Some i)
      have "set (xs[i := new]) \<subseteq> insert new (set xs)" by (rule set_update_subset_insert)
      then have "f x \<notin> f ` set (xs[i := new])" using Cons.prems neq by auto
      with Cons.prems Cons.IH neq Some show ?thesis by simp
    qed
  qed
qed

lemma names_unique_add:
  "names_unique s \<Longrightarrow> names_unique (snd (addUserVariable h uuid now variable s))"
proof -
  assume u: "names_unique s"
  have n: "nv_name variable = uv_name (newVariable uuid now variable)"
    by (simp add: newVariable_def)
  have "distinct (map uv_name (case findIndex (\<lambda>v. uv_name v = uv_name (newVariable uuid now variable)) vars of
            Some i \<Rightarrow> vars[i := newVariable uuid now variable]
          | None \<Rightarrow> vars @ [newVariable uuid now variable]))" if "distinct (map uv_name vars)" for vars
    using that by (rule distinct_upsert)
  from this [of "or_empty (user_variables s)"] u show ?thesis
    by (auto simp: names_unique_def addUserVariable_cases Let_def or_empty_simps n)
qed

lemma names_unique_remove:
  "names_unique s \<Longrightarrow> names_unique (snd (removeUserVariable h ident s))"
  by (simp add: names_unique_def removeUserVariable_cases Let_def or_empty_simps distinct_map_filter)

text \<open>
  Creating and removing variables keeps the names unique, whatever the host does; an
  update does when it leaves the name of the variable it replaces as it is.
\<close>

lemma names_unique_update_same_name:
  assumes "names_unique s"
    and "\<forall>v \<in> set (or_empty (user_variables s)). uv_id v = uv_id variable \<longrightarrow> uv_name v = uv_name variable"
  shows "names_unique (snd (updateUserVariable h now variable s))"
proof (cases "available h \<and> \<not> get_rejects h")
  case False
  then show ?thesis using assms(1)
    by (auto simp: updateUserVariable_def getUserVariables_cases)
next
  case True
  let ?vars = "or_empty (user_variables s)"
  show ?thesis
  proof (cases "findIndex (\<lambda>v. uv_id v = uv_id variable) ?vars")
    case None
    with True assms(1) show ?thesis
      by (simp add: updateUserVariable_def getUserVariables_cases)
  next
    case (Some i)
    from findIndex_Some [OF Some] have i: "i < length ?vars" "uv_id (?vars ! i) = uv_id variable"
      by simp_all
    with assms(2) have "uv_name (?vars ! i) = uv_name variable" by simp
    then have "map uv_name (?vars[i := variable\<lparr>uv_timestamp := now\<rparr>]) = map uv_name ?vars"
      using i(1) by (simp add: map_update list_update_same_conv)
    with True Some assms(1) show ?thesis
      by (simp add: updateUserVariable_def getUserVariables_cases local_set_cases Let_def
          names_unique_def or_empty_simps)
  qed
qed

lemma names_unique_apply_op:
  "names_unique s \<Longrightarrow> \<not> renames c s \<Longrightarrow> names_unique (apply_op c s)"
  by (cases c)
    (auto simp: renames_def intro: names_unique_add names_unique_remove names_unique_update_same_name)

text \<open>
  C2 at a failing input: from the empty collection, two variables are created and the
  second is then updated, by its id, to the name of the first. The update is stored as
  it is, and the collection holds two variables of one name.
\<close>

theorem update_breaks_name_uniqueness:
  "names_unique (run_ops (butlast rename_onto_existing) empty_items)
   \<and> map uv_name (or_empty (user_variables (run_ops rename_onto_existing empty_items))) = [''A'', ''A'']
   \<and> map uv_id (or_empty (user_variables (run_ops rename_onto_existing empty_items))) = [''id-1'', ''id-2'']
   \<and> \<not> names_unique (run_ops rename_onto_existing empty_items)"
  by (simp add: names_unique_def run_ops_def rename_onto_existing_def empty_items_def
      addUserVariable_cases newVariable_def or_empty_simps Let_def
      updateUserVariable_def getUserVariables_cases local_set_cases working_host_def)

section \<open>Properties of the replacement of one occurrence\<close>

lemma substring_0: "substring s 0 a = take a s"
  by (simp add: substring_def min_def max_def)

lemma substring_from_drop: "substring_from s b = drop b s"
  by (simp add: substring_from_def substring_def min_def max_def)

lemma slice_0: "slice s 0 a = take a s"
  by (simp add: slice_def min_def)

lemma slice_from_drop: "slice_from s b = drop b s"
  by (simp add: slice_from_def slice_def min_def)

lemma sorted_wrt_pair:
  "sorted_wrt R xs \<Longrightarrow> x \<in> set xs \<Longrightarrow> y \<in> set xs \<Longrightarrow> x \<noteq> y \<Longrightarrow> R x y \<or> R y x"
  by (induction xs) auto

lemma slice_before_splice:
  assumes "e \<le> a" and "a \<le> length t"
  shows "slice (take a t @ r) b e = slice t b e"
proof (cases "b \<le> e")
  case True
  with assms have "min e (length (take a t @ r)) = e" "min e (length t) = e"
    "min b (length (take a t @ r)) = b" "min b (length t) = b"
    by simp_all
  moreover from assms True have "take (e - b) (drop b (take a t @ r)) = take (e - b) (drop b t)"
    by (simp add: drop_take)
  ultimately show ?thesis by (simp only: slice_def Let_def)
next
  case False
  with assms have "e - min b (length (take a t @ r)) = 0" "e - min b (length t) = 0"
    by simp_all
  moreover from assms have "min e (length (take a t @ r)) = e" "min e (length t) = e" by simp_all
  ultimately show ?thesis by (simp only: slice_def Let_def take_0)
qed

lemma slice_after_splice:
  assumes "a \<le> b" and "b \<le> c" and "c \<le> e" and "e \<le> length t"
  shows "slice (take a t @ v @ drop b t) (c - (b - a) + length v) (e - (b - a) + length v) = slice t c e"
proof -
  let ?t' = "take a t @ v @ drop b t"
  from assms have la: "length (take a t) = a" by simp
  have len: "length ?t' = a + length v + (length t - b)" using la by simp
  from assms have c': "c - (b - a) + length v = a + length v + (c - b)" by arith
  from assms have e': "e - (b - a) + length v = a + length v + (e - b)" by arith
  have "drop (a + length v + (c - b)) ?t' = drop (length v + (c - b)) (v @ drop b t)"
    using la by (simp add: add.assoc)
  also have "\<dots> = drop (c - b) (drop b t)" by simp
  also from assms have "\<dots> = drop c t" by simp
  finally have d: "drop (a + length v + (c - b)) ?t' = drop c t" .
  from assms have m1: "min (a + length v + (c - b)) (length ?t') = a + length v + (c - b)"
    unfolding len by arith
  from assms have m2: "min (a + length v + (e - b)) (length ?t') = a + length v + (e - b)"
    unfolding len by arith
  from assms have m3: "min c (length t) = c" and m4: "min e (length t) = e" by simp_all
  from assms have k: "a + length v + (e - b) - (a + length v + (c - b)) = e - c" by arith
  have "slice ?t' (a + length v + (c - b)) (a + length v + (e - b)) = take (e - c) (drop c t)"
    by (simp only: slice_def Let_def m1 m2 k d)
  moreover have "slice t c e = take (e - c) (drop c t)"
    by (simp only: slice_def Let_def m3 m4)
  ultimately show ?thesis unfolding c' e' by simp
qed

lemma addUserVariable_result:
  "addUserVariable h uuid now variable s = (Inr created, s') \<Longrightarrow> created = newVariable uuid now variable"
  by (auto simp: addUserVariable_cases Let_def split: if_splits)

lemma handleReplaceVariable_new:
  assumes "optimizationResult st = Some result" and "\<not> (use_existing \<and> selected \<noteq> None)"
    and "handleReplaceVariable h_add h_get uuid now use_existing selected st s = (Inr st', s')"
  shows "optimizationResult st' =
           Some (result\<lparr>optimized :=
             take (position_start (variableReplaceDialog st)) (optimized result)
             @ currentValue (variableReplaceDialog st)
             @ drop (position_end (variableReplaceDialog st)) (optimized result)\<rparr>)"
proof -
  let ?nv = "\<lparr>nv_name = variableName (variableReplaceDialog st),
              nv_value = currentValue (variableReplaceDialog st),
              nv_description = Some (description_for (variableName (variableReplaceDialog st))),
              nv_category = Some ''general''\<rparr>"
  obtain r s1 where a: "addUserVariable h_add uuid now ?nv s = (r, s1)"
    by (cases "addUserVariable h_add uuid now ?nv s") auto
  have unfold: "handleReplaceVariable h_add h_get uuid now use_existing selected st s =
     (case (case (r, s1) of
              (Inl e, s') \<Rightarrow> (Inl e, s')
            | (Inr created, s') \<Rightarrow>
                (case getUserVariables h_get s' of
                   Inl e \<Rightarrow> (Inl e, s')
                 | Inr variables \<Rightarrow> (Inr (uv_value created, st\<lparr>userVariables := variables\<rparr>), s'))) of
        (Inl e, s') \<Rightarrow> (Inl e, s')
      | (Inr (replacementValue, st1), s') \<Rightarrow>
          (Inr (st1\<lparr>optimizationResult := Some (result\<lparr>optimized :=
                   take (position_start (variableReplaceDialog st)) (optimized result)
                   @ replacementValue
                   @ drop (position_end (variableReplaceDialog st)) (optimized result)\<rparr>),
                 variableReplaceDialog := closed_dialog\<rparr>), s'))"
    unfolding handleReplaceVariable_def Let_def assms(1) option.case if_not_P [OF assms(2)] a
      substring_0 substring_from_drop ..
  show ?thesis
  proof (cases r)
    case (Inl e)
    with assms(3) show ?thesis unfolding unfold by simp
  next
    case (Inr created)
    with a have "created = newVariable uuid now ?nv" by (auto dest: addUserVariable_result)
    then have v: "uv_value created = currentValue (variableReplaceDialog st)"
      by (simp add: newVariable_def)
    from assms(3) Inr v show ?thesis
      unfolding unfold by (auto simp: getUserVariables_cases)
  qed
qed

lemma handleReplaceVariable_text:
  assumes "optimizationResult st = Some result"
    and "handleReplaceVariable h_add h_get uuid now use_existing selected st s = (Inr st', s')"
  shows "optimizationResult st' =
           Some (result\<lparr>optimized :=
             take (position_start (variableReplaceDialog st)) (optimized result)
             @ (if use_existing \<and> selected \<noteq> None then uv_value (the selected)
                else currentValue (variableReplaceDialog st))
             @ drop (position_end (variableReplaceDialog st)) (optimized result)\<rparr>)"
proof (cases "use_existing \<and> selected \<noteq> None")
  case True
  then obtain sv where "use_existing" "selected = Some sv" by auto
  with assms show ?thesis
    by (auto simp: handleReplaceVariable_def Let_def substring_0 substring_from_drop)
next
  case False
  from handleReplaceVariable_new [OF assms(1) False assms(2)] show ?thesis
    unfolding if_not_P [OF False] .
qed

lemma handleReplaceVariable_completes:
  assumes "optimizationResult st = Some result"
    and "(use_existing \<and> selected \<noteq> None) \<or> \<not> available h_add \<or> \<not> set_rejects h_add"
  shows "\<exists>st' s'. handleReplaceVariable h_add h_get uuid now use_existing selected st s = (Inr st', s')"
proof (cases "use_existing \<and> selected \<noteq> None")
  case True
  then obtain sv where "use_existing" "selected = Some sv" by auto
  with assms(1) show ?thesis by (simp add: handleReplaceVariable_def Let_def)
next
  case False
  with assms(2) have w: "\<not> available h_add \<or> \<not> set_rejects h_add" by blast
  let ?nv = "\<lparr>nv_name = variableName (variableReplaceDialog st),
              nv_value = currentValue (variableReplaceDialog st),
              nv_description = Some (description_for (variableName (variableReplaceDialog st))),
              nv_category = Some ''general''\<rparr>"
  have "\<exists>s1. addUserVariable h_add uuid now ?nv s = (Inr (newVariable uuid now ?nv), s1)"
  proof (cases "available h_add")
    case False
    then show ?thesis by (simp add: addUserVariable_cases Let_def)
  next
    case True
    with w have "\<not> set_rejects h_add" by blast
    with True show ?thesis by (simp add: addUserVariable_cases Let_def)
  qed
  then obtain s1 where a: "addUserVariable h_add uuid now ?nv s = (Inr (newVariable uuid now ?nv), s1)"
    by blast
  show ?thesis
    unfolding handleReplaceVariable_def Let_def assms(1) option.case if_not_P [OF False] a
    by (simp add: getUserVariables_cases)
qed

lemma handleReplaceVariable_rejects:
  assumes "optimizationResult st = Some result"
    and "\<not> (use_existing \<and> selected \<noteq> None)" and "available h_add" and "set_rejects h_add"
  shows "handleReplaceVariable h_add h_get uuid now use_existing selected st s = (Inl StorageError, s)"
proof -
  let ?nv = "\<lparr>nv_name = variableName (variableReplaceDialog st),
              nv_value = currentValue (variableReplaceDialog st),
              nv_description = Some (description_for (variableName (variableReplaceDialog st))),
              nv_category = Some ''general''\<rparr>"
  from assms(3,4) have a: "addUserVariable h_add uuid now ?nv s = (Inl StorageError, s)"
    by (simp add: addUserVariable_cases Let_def)
  show ?thesis
    unfolding handleReplaceVariable_def Let_def assms(1) option.case if_not_P [OF assms(2)] a
    by simp
qed

lemma replacement_keeps_others:
  assumes sel: "sel \<in> set (parseVariablesFromText t)" "pv_start sel = a" "pv_end sel = b"
    and w: "w \<in> set (parseVariablesFromText t)" "w \<noteq> sel"
    and t': "t' = take a t @ v @ drop b t"
  shows "(pv_end w \<le> a \<and> slice t' (pv_start w) (pv_end w) = CHR ''['' # pv_name w @ [CHR '']''])
          \<or> (b \<le> pv_start w \<and>
              slice t' (pv_start w - (b - a) + length v) (pv_end w - (b - a) + length v)
                = CHR ''['' # pv_name w @ [CHR '']''])"
proof -
  note ps = parse_occurrence [OF sel(1)] and pw = parse_occurrence [OF w(1)]
  from ps(1,2) sel(2,3) have ab: "a \<le> b" "b \<le> length t" by simp_all
  from pw(1,2) have we: "pv_start w \<le> pv_end w" "pv_end w \<le> length t" by simp_all
  from pw(5) we(1) have sl: "slice t (pv_start w) (pv_end w) = CHR ''['' # pv_name w @ [CHR '']'']"
    by (simp add: slice_substring)
  from sorted_wrt_pair [OF parse_disjoint w(1) sel(1) w(2)] sel(2,3)
  have "pv_end w \<le> a \<or> b \<le> pv_start w" by simp
  then show ?thesis
  proof
    assume before: "pv_end w \<le> a"
    from ab have "a \<le> length t" by simp
    from slice_before_splice [OF before this, of "v @ drop b t" "pv_start w"] sl before
    show ?thesis unfolding t' by simp
  next
    assume after: "b \<le> pv_start w"
    from slice_after_splice [OF ab(1) after we(1) we(2), of v] sl after
    show ?thesis unfolding t' by simp
  qed
qed

text \<open>
  C3. On a text \<open>t\<close> with the captured offsets \<open>a\<close> and \<open>b\<close>, the handler completes when
  an existing variable is chosen or the write of the new variable is not rejected, and the
  new text is then \<open>t.slice(0, a) + v + t.slice(b)\<close>, where \<open>v\<close> is the value of the chosen
  variable (existing variable) or the value typed into the dialog (new variable); it
  rejects, and sets no text, exactly when a new variable is to be written and the storage
  rejects the write. When the offsets are those of an occurrence the parser reports for
  \<open>t\<close>, every other occurrence keeps its text: one before the selected occurrence at its
  own offsets, one after it at its offsets moved by the change of length.
\<close>

theorem handleReplaceVariable_replaces_selected:
  assumes "optimizationResult st = Some result"
    and "t = optimized result"
    and "a = position_start (variableReplaceDialog st)"
    and "b = position_end (variableReplaceDialog st)"
    and "v = (if use_existing \<and> selected \<noteq> None then uv_value (the selected)
              else currentValue (variableReplaceDialog st))"
    and "t' = slice t 0 a @ v @ slice_from t b"
  shows "((use_existing \<and> selected \<noteq> None) \<or> \<not> available h_add \<or> \<not> set_rejects h_add \<longrightarrow>
           (\<exists>st' s'. handleReplaceVariable h_add h_get uuid now use_existing selected st s = (Inr st', s')
              \<and> map_option optimized (optimizationResult st') = Some t'))
    \<and> (\<not> (use_existing \<and> selected \<noteq> None) \<and> available h_add \<and> set_rejects h_add \<longrightarrow>
           handleReplaceVariable h_add h_get uuid now use_existing selected st s = (Inl StorageError, s))
    \<and> (\<forall>st' s'. handleReplaceVariable h_add h_get uuid now use_existing selected st s = (Inr st', s') \<longrightarrow>
           map_option optimized (optimizationResult st') = Some t')
    \<and> (\<forall>sel \<in> set (parseVariablesFromText t). pv_start sel = a \<and> pv_end sel = b \<longrightarrow>
         (\<forall>w \<in> set (parseVariablesFromText t). w \<noteq> sel \<longrightarrow>
            (pv_end w \<le> a \<and> slice t' (pv_start w) (pv_end w) = CHR ''['' # pv_name w @ [CHR '']''])
          \<or> (b \<le> pv_start w \<and>
              slice t' (pv_start w - (b - a) + length v) (pv_end w - (b - a) + length v)
                = CHR ''['' # pv_name w @ [CHR '']''])))"
proof -
  have t': "t' = take a t @ v @ drop b t"
    using assms(6) by (simp add: slice_0 slice_from_drop)
  have spliced: "map_option optimized (optimizationResult st') = Some t'"
    if "handleReplaceVariable h_add h_get uuid now use_existing selected st s = (Inr st', s')"
    for st' s'
    using handleReplaceVariable_text [OF assms(1) that] assms(2-5) t' by simp
  have completes: "\<exists>st' s'. handleReplaceVariable h_add h_get uuid now use_existing selected st s = (Inr st', s')
              \<and> map_option optimized (optimizationResult st') = Some t'"
    if "(use_existing \<and> selected \<noteq> None) \<or> \<not> available h_add \<or> \<not> set_rejects h_add"
    using handleReplaceVariable_completes [OF assms(1) that] spliced by blast
  have rejects: "handleReplaceVariable h_add h_get uuid now use_existing selected st s = (Inl StorageError, s)"
    if "\<not> (use_existing \<and> selected \<noteq> None) \<and> available h_add \<and> set_rejects h_add"
    using that by (intro handleReplaceVariable_rejects [OF assms(1)]) blast+
  have others: "(pv_end w \<le> a \<and> slice t' (pv_start w) (pv_end w) = CHR ''['' # pv_name w @ [CHR '']''])
          \<or> (b \<le> pv_start w \<and>
              slice t' (pv_start w - (b - a) + length v) (pv_end w - (b - a) + length v)
                = CHR ''['' # pv_name w @ [CHR '']''])"
    if "sel \<in> set (parseVariablesFromText t)" "pv_start sel = a" "pv_end sel = b"
      and "w \<in> set (parseVariablesFromText t)" "w \<noteq> sel" for sel w
    using that t' by (rule replacement_keeps_others)
  from completes rejects spliced others show ?thesis by blast
qed

text \<open>
  C9. Confirming with an existing variable leaves the persisted state as it is (no write
  is issued, whatever the host would do) and the list of variables in memory as it is; with
  a text at hand the handler completes, and the text gets the stored value of that variable
  between the slices before and after the captured offsets.
\<close>

theorem handleReplaceVariable_existing_read_only:
  "snd (handleReplaceVariable h_add h_get uuid now True (Some sv) st s) = s
   \<and> (\<exists>st'. fst (handleReplaceVariable h_add h_get uuid now True (Some sv) st s) = Inr st'
        \<and> userVariables st' = userVariables st)
   \<and> (optimizationResult st = Some result \<longrightarrow>
        fst (handleReplaceVariable h_add h_get uuid now True (Some sv) st s) =
          Inr (st\<lparr>optimizationResult := Some (result\<lparr>optimized :=
                     slice (optimized result) 0 (position_start (variableReplaceDialog st))
                     @ uv_value sv
                     @ slice_from (optimized result) (position_end (variableReplaceDialog st))\<rparr>),
                  variableReplaceDialog := closed_dialog\<rparr>))"
  by (cases "optimizationResult st")
    (simp_all add: handleReplaceVariable_def Let_def substring_0 substring_from_drop slice_0 slice_from_drop)

theorem handleReplaceVariable_replaces_selected_witness:
  "optimizationResult bob_typed = Some \<lparr>original = ''hi'', optimized = ''Hi [NAME] and [NAME] again''\<rparr>
   \<and> position_start (variableReplaceDialog bob_typed) = 3
   \<and> position_end (variableReplaceDialog bob_typed) = 9
   \<and> \<not> set_rejects working_host
   \<and> handleReplaceVariable working_host working_host ''id-1'' 1 False None bob_typed empty_items =
       (Inr bob_replaced, \<lparr>user_variables = Some [bob], recent_prompts = None\<rparr>)
   \<and> map_option optimized (optimizationResult bob_replaced) = Some ''Hi Bob and [NAME] again''
   \<and> available write_fails \<and> set_rejects write_fails
   \<and> handleReplaceVariable write_fails working_host ''id-1'' 1 False None bob_typed empty_items =
       (Inl StorageError, empty_items)
   \<and> \<lparr>pv_name = ''NAME'', pv_start = 14, pv_end = 20\<rparr>
        \<in> set (parseVariablesFromText ''Hi [NAME] and [NAME] again'')
   \<and> slice ''Hi Bob and [NAME] again'' 11 17 = ''[NAME]''"
proof -
  have o: "optimizationResult bob_typed = Some \<lparr>original = ''hi'', optimized = ''Hi [NAME] and [NAME] again''\<rparr>"
    and a: "3 = position_start (variableReplaceDialog bob_typed)"
    and b: "9 = position_end (variableReplaceDialog bob_typed)"
    and v: "''Bob'' = (if False \<and> (None :: UserVariable option) \<noteq> None then uv_value (the None)
              else currentValue (variableReplaceDialog bob_typed))"
    by (simp_all add: bob_typed_def handleVariableClick_def greeting_def)
  have run: "handleReplaceVariable working_host working_host ''id-1'' 1 False None bob_typed empty_items =
       (Inr bob_replaced, \<lparr>user_variables = Some [bob], recent_prompts = None\<rparr>)"
    by (simp add: handleReplaceVariable_def bob_typed_def handleVariableClick_def greeting_def
        addUserVariable_cases getUserVariables_cases working_host_def empty_items_def Let_def
        newVariable_def or_empty_simps substring_0 substring_from_drop bob_replaced_def bob_def
        description_for_def)
  have p: "parseVariablesFromText ''Hi [NAME] and [NAME] again'' =
     [\<lparr>pv_name = ''NAME'', pv_start = 3, pv_end = 9\<rparr>, \<lparr>pv_name = ''NAME'', pv_start = 14, pv_end = 20\<rparr>]"
    by (simp add: parse_is_scan)
  have t': "''Hi Bob and [NAME] again'' = slice ''Hi [NAME] and [NAME] again'' 0 3 @ ''Bob''
      @ slice_from ''Hi [NAME] and [NAME] again'' 9"
    by (simp add: slice_0 slice_from_drop)
  have tt: "''Hi [NAME] and [NAME] again'' =
      optimized \<lparr>original = ''hi'', optimized = ''Hi [NAME] and [NAME] again''\<rparr>"
    by simp
  have ok: "\<not> set_rejects working_host" by (simp add: working_host_def)
  have bad: "available write_fails" "set_rejects write_fails" by (simp_all add: write_fails_def)
  note good = handleReplaceVariable_replaces_selected
    [OF o tt a b v t', where h_add = working_host and h_get = working_host and uuid = "''id-1''"
       and now = 1 and s = empty_items]
  note fails = handleReplaceVariable_replaces_selected
    [OF o tt a b v t', where h_add = write_fails and h_get = working_host and uuid = "''id-1''"
       and now = 1 and s = empty_items]
  from good ok
  have "\<exists>st' s'. handleReplaceVariable working_host working_host ''id-1'' 1 False None bob_typed empty_items
            = (Inr st', s')
          \<and> map_option optimized (optimizationResult st') = Some ''Hi Bob and [NAME] again''"
    by blast
  with run
  have first: "map_option optimized (optimizationResult bob_replaced) = Some ''Hi Bob and [NAME] again''"
    by auto
  from fails bad
  have rej: "handleReplaceVariable write_fails working_host ''id-1'' 1 False None bob_typed empty_items =
       (Inl StorageError, empty_items)"
    by blast
  from good
  have others: "\<forall>sel \<in> set (parseVariablesFromText ''Hi [NAME] and [NAME] again'').
        pv_start sel = 3 \<and> pv_end sel = 9 \<longrightarrow>
         (\<forall>w \<in> set (parseVariablesFromText ''Hi [NAME] and [NAME] again''). w \<noteq> sel \<longrightarrow>
            (pv_end w \<le> 3 \<and> slice ''Hi Bob and [NAME] again'' (pv_start w) (pv_end w) = CHR ''['' # pv_name w @ [CHR '']''])
          \<or> (9 \<le> pv_start w \<and>
              slice ''Hi Bob and [NAME] again'' (pv_start w - (9 - 3) + length ''Bob'') (pv_end w - (9 - 3) + length ''Bob'')
                = CHR ''['' # pv_name w @ [CHR '']'']))"
    by blast
  from others [unfolded p] have "slice ''Hi Bob and [NAME] again'' 11 17 = ''[NAME]''"
    by simp
  with o a b run first p ok bad rej show ?thesis by simp
qed

theorem handleReplaceVariable_existing_read_only_witness:
  "optimizationResult alice_selected = Some \<lparr>original = ''hi'', optimized = ''Hi [NAME] and [NAME] again''\<rparr>
   \<and> handleReplaceVariable write_fails read_fails ''id-3'' 3 True (Some alice) alice_selected two_variables =
       (Inr \<lparr>optimizationResult = Some \<lparr>original = ''hi'', optimized = ''Hi Alice and [NAME] again''\<rparr>,
             userVariables = [alice, paris], variableReplaceDialog = closed_dialog\<rparr>,
        two_variables)"
proof -
  have o: "optimizationResult alice_selected = Some \<lparr>original = ''hi'', optimized = ''Hi [NAME] and [NAME] again''\<rparr>"
    by (simp add: alice_selected_def handleVariableClick_def greeting_def)
  note inst = handleReplaceVariable_existing_read_only
    [where st = alice_selected and s = two_variables and sv = alice and h_add = write_fails
       and h_get = read_fails and uuid = "''id-3''" and now = 3
       and result = "\<lparr>original = ''hi'', optimized = ''Hi [NAME] and [NAME] again''\<rparr>"]
  from inst have s: "snd (handleReplaceVariable write_fails read_fails ''id-3'' 3 True (Some alice) alice_selected two_variables) = two_variables"
    by simp
  from inst o have "fst (handleReplaceVariable write_fails read_fails ''id-3'' 3 True (Some alice) alice_selected two_variables) =
       Inr \<lparr>optimizationResult = Some \<lparr>original = ''hi'', optimized = ''Hi Alice and [NAME] again''\<rparr>,
             userVariables = [alice, paris], variableReplaceDialog = closed_dialog\<rparr>"
    by (simp add: alice_selected_def handleVariableClick_def greeting_def slice_0 slice_from_drop alice_def)
  with s o show ?thesis by (simp add: prod_eq_iff)
qed

section \<open>Properties of the preview\<close>

text \<open>
  C5 at a failing input. The text holds one placeholder written with blanks inside the
  braces. The first effect reports it as a valid occurrence of \<open>name\<close> with the span
  \<open>[3, 13)\<close>; the preview searches for the name between braces without the blanks, finds
  nothing to replace and shows the placeholder as it is. Written without blanks the
  placeholder is replaced; with both spellings in one text the replacement lands on the
  second occurrence and the first stays.
\<close>

theorem preview_misses_spaced_placeholder:
  "parsedVariables ''Hi {{ name }}!'' [name_alice] =
     [\<lparr>pvar_name = ''name'', startIndex = 3, endIndex = 13, isValid = True,
       pvar_variable = Some name_alice\<rparr>]
   \<and> preview_effect True ''Hi {{ name }}!'' [name_alice] [] = ''Hi {{ name }}!''
   \<and> preview_effect True ''Hi {{name}}!'' [name_alice] [] = ''Hi Alice!''
   \<and> preview_effect True ''{{ name }} and {{name}}'' [name_alice] [] = ''{{ name }} and Alice''"
proof -
  have a: "parsedVariables ''Hi {{ name }}!'' [name_alice] =
     [\<lparr>pvar_name = ''name'', startIndex = 3, endIndex = 13, isValid = True,
       pvar_variable = Some name_alice\<rparr>]"
    by code_simp
  have b: "preview_effect True ''Hi {{ name }}!'' [name_alice] [] = ''Hi {{ name }}!''"
    by code_simp
  have c: "preview_effect True ''Hi {{name}}!'' [name_alice] [] = ''Hi Alice!''"
    by code_simp
  have d: "preview_effect True ''{{ name }} and {{name}}'' [name_alice] [] = ''{{ name }} and Alice''"
    by code_simp
  from a b c d show ?thesis by blast
qed

theorem preview_misses_spaced_placeholder_witness:
  "preview_effect True ''Hi {{ name }}!'' [name_alice] [] = ''Hi {{ name }}!''"
  using preview_misses_spaced_placeholder by blast

end
